theory Spec2Isabelle
  imports Main "HOL-Library.Char_ord" "HOL-Library.List_Lexorder" "HOL-Library.AList"
begin

section \<open>Text: characters, case mapping, whitespace\<close>

text \<open>
  The four scripts work on file names, product codes and cue text.  Python's \<open>str\<close> and
  \<open>bytes\<close> are both modelled as \<^typ>\<open>string\<close>, a list of 8-bit characters, read as ASCII
  text: \<open>upper\<close>, \<open>lower\<close> and \<open>re.IGNORECASE\<close> map the 26 ASCII letters and leave every
  other character alone, \<open>\d\<close> is \<open>0-9\<close>, and \<open>\s\<close> (as well as \<open>strip\<close> and \<open>rstrip\<close>
  without argument) is the ASCII part of Python's white space, which for \<open>str\<close> includes
  the four separators \<open>0x1C\<close> to \<open>0x1F\<close>.
\<close>

definition lowers :: string where
  "lowers = ''abcdefghijklmnopqrstuvwxyz''"

definition uppers :: string where
  "uppers = ''ABCDEFGHIJKLMNOPQRSTUVWXYZ''"

definition digits :: string where
  "digits = ''0123456789''"

definition spaces :: string where
  "spaces = [CHR 0x09, CHR 0x0A, CHR 0x0B, CHR 0x0C, CHR 0x0D,
             CHR 0x1C, CHR 0x1D, CHR 0x1E, CHR 0x1F, CHR '' '']"

definition is_upper :: "char \<Rightarrow> bool" where
  "is_upper c = (c \<in> set uppers)"

definition is_lower :: "char \<Rightarrow> bool" where
  "is_lower c = (c \<in> set lowers)"

definition is_digit :: "char \<Rightarrow> bool" where
  "is_digit c = (c \<in> set digits)"

definition is_space :: "char \<Rightarrow> bool" where
  "is_space c = (c \<in> set spaces)"

definition char_upper :: "char \<Rightarrow> char" where
  "char_upper c = (case map_of (zip lowers uppers) c of Some u \<Rightarrow> u | None \<Rightarrow> c)"

definition char_lower :: "char \<Rightarrow> char" where
  "char_lower c = (case map_of (zip uppers lowers) c of Some l \<Rightarrow> l | None \<Rightarrow> c)"

text \<open>\<open>str.upper()\<close> and \<open>str.lower()\<close>.\<close>

definition str_upper :: "string \<Rightarrow> string" where
  "str_upper s = map char_upper s"

definition str_lower :: "string \<Rightarrow> string" where
  "str_lower s = map char_lower s"

text \<open>\<open>str.rstrip()\<close>, \<open>str.lstrip()\<close> and \<open>str.strip()\<close> without argument.\<close>

definition str_rstrip :: "string \<Rightarrow> string" where
  "str_rstrip s = rev (dropWhile is_space (rev s))"

definition str_lstrip :: "string \<Rightarrow> string" where
  "str_lstrip s = dropWhile is_space s"

definition str_strip :: "string \<Rightarrow> string" where
  "str_strip s = str_rstrip (str_lstrip s)"

text \<open>
  \<open>str.replace(old, new)\<close>: the occurrences of \<open>old\<close> are found from the left and do not
  overlap.  Every call in the scripts has a one-character \<open>old\<close>; the model follows Python
  for any non-empty \<open>old\<close>.
\<close>

function str_replace :: "string \<Rightarrow> string \<Rightarrow> string \<Rightarrow> string" where
  "str_replace old new s =
     (if old \<noteq> [] \<and> take (length old) s = old
      then new @ str_replace old new (drop (length old) s)
      else (case s of [] \<Rightarrow> [] | c # cs \<Rightarrow> c # str_replace old new cs))"
  by pat_completeness auto
termination
proof (relation "measure (\<lambda>(old, new, s). length s)")
  fix old new s :: string
  assume a: "old \<noteq> [] \<and> take (length old) s = old"
  then have "s \<noteq> []" by auto
  with a show "((old, new, drop (length old) s), (old, new, s))
      \<in> measure (\<lambda>(old, new, s). length s)"
    by (cases old) auto
qed auto

declare str_replace.simps [simp del]

section \<open>Regular expressions as Python's \<open>re\<close> matches them\<close>

text \<open>
  The patterns of the scripts use character classes, concatenation, greedy optional parts,
  greedy repetition of a character class and the end anchor.  \<open>rmatch r s\<close> lists the
  remainders of \<open>s\<close> after every way \<open>r\<close> can match a prefix of \<open>s\<close>, in the order in which
  the backtracking matcher tries them; the head of the list is the match \<open>re\<close> reports.
  \<open>Rep m ub P\<close> is \<open>[P]{m,ub}\<close>, with \<open>ub = None\<close> for no upper bound; \<open>Eos\<close> is \<open>$\<close>
  without \<open>re.MULTILINE\<close>, which also matches just before a final newline.
\<close>

datatype rx =
    Eps
  | Cls "char \<Rightarrow> bool"
  | Seq rx rx
  | Opt rx
  | Rep nat "nat option" "char \<Rightarrow> bool"
  | Eos

fun rmatch :: "rx \<Rightarrow> string \<Rightarrow> string list" where
  "rmatch Eps s = [s]"
| "rmatch (Cls P) s = (case s of [] \<Rightarrow> [] | c # cs \<Rightarrow> if P c then [cs] else [])"
| "rmatch (Seq a b) s = concat (map (rmatch b) (rmatch a s))"
| "rmatch (Opt a) s = rmatch a s @ [s]"
| "rmatch (Rep m ub P) s =
     (let k = length (takeWhile P s);
          hi = (case ub of None \<Rightarrow> k | Some n \<Rightarrow> min n k)
      in map (\<lambda>j. drop j s) (rev [m..<Suc hi]))"
| "rmatch Eos s = (if s = [] \<or> s = [CHR 0x0A] then [s] else [])"

text \<open>The match at the start of \<open>s\<close>, if any: the matched text and what follows it.\<close>

definition match_at :: "rx \<Rightarrow> string \<Rightarrow> (string \<times> string) option" where
  "match_at r s =
     (case rmatch r s of [] \<Rightarrow> None
      | rest # _ \<Rightarrow> Some (take (length s - length rest) s, rest))"

text \<open>\<open>pattern.search(s)\<close>: the leftmost match, as (text before, match, text after).\<close>

fun re_search :: "rx \<Rightarrow> string \<Rightarrow> (string \<times> string \<times> string) option" where
  "re_search r [] = (case match_at r [] of None \<Rightarrow> None | Some (m, rest) \<Rightarrow> Some ([], m, rest))"
| "re_search r (c # cs) =
     (case match_at r (c # cs) of
        Some (m, rest) \<Rightarrow> Some ([], m, rest)
      | None \<Rightarrow> (case re_search r cs of None \<Rightarrow> None
                 | Some (pre, m, rest) \<Rightarrow> Some (c # pre, m, rest)))"

text \<open>
  \<open>pattern.sub(repl, s, count=1)\<close> for a replacement text without backslash, which is
  inserted as it is.
\<close>

definition re_sub_first :: "rx \<Rightarrow> string \<Rightarrow> string \<Rightarrow> string" where
  "re_sub_first r repl s =
     (case re_search r s of None \<Rightarrow> s | Some (pre, m, rest) \<Rightarrow> pre @ repl @ rest)"

text \<open>
  \<open>pattern.sub(repl, s)\<close>: every match, from the left, without overlap.  No pattern that
  the scripts substitute everywhere can match the empty text; a position with an empty
  match is treated like a position without match.
\<close>

function re_sub :: "rx \<Rightarrow> string \<Rightarrow> string \<Rightarrow> string" where
  "re_sub r repl s =
     (case match_at r s of
        Some (m, rest) \<Rightarrow>
          (if m \<noteq> [] \<and> length rest < length s then repl @ re_sub r repl rest
           else (case s of [] \<Rightarrow> [] | c # cs \<Rightarrow> c # re_sub r repl cs))
      | None \<Rightarrow> (case s of [] \<Rightarrow> [] | c # cs \<Rightarrow> c # re_sub r repl cs))"
  by pat_completeness auto
termination
  by (relation "measure (\<lambda>(r, repl, s). length s)") auto

declare re_sub.simps [simp del]

text \<open>Pattern building blocks.\<close>

definition chr :: "char \<Rightarrow> rx" where
  "chr x = Cls (\<lambda>c. c = x)"

definition ichr :: "char \<Rightarrow> rx" where
  "ichr x = Cls (\<lambda>c. char_lower c = char_lower x)"

definition oneof :: "string \<Rightarrow> rx" where
  "oneof xs = Cls (\<lambda>c. c \<in> set xs)"

definition ioneof :: "string \<Rightarrow> rx" where
  "ioneof xs = Cls (\<lambda>c. char_lower c \<in> set (map char_lower xs))"

definition is_letter :: "char \<Rightarrow> bool" where
  "is_letter c = (is_upper c \<or> is_lower c)"

definition seqs :: "rx list \<Rightarrow> rx" where
  "seqs rs = foldr Seq rs Eps"

section \<open>Product codes (02\_tagBinCuePairsWithIDs.py, 04\_tagPs2IsosWithIDs.py)\<close>

text \<open>
  \<open>normalize_code\<close> has the same body in both taggers:
  \<^verbatim>\<open>raw.replace("_", "-").replace(".", "").upper()\<close>
\<close>

definition normalize_code :: "string \<Rightarrow> string" where
  "normalize_code raw = str_upper (str_replace ''.'' '''' (str_replace ''_'' ''-'' raw))"

text \<open>
  The specification's wording of the same function, character by character: every
  underscore becomes a hyphen, every dot is deleted, the rest is uppercased.
\<close>

definition normalize_spec :: "string \<Rightarrow> string" where
  "normalize_spec raw =
     map char_upper
       (filter (\<lambda>c. c \<noteq> CHR ''.'') (map (\<lambda>c. if c = CHR ''_'' then CHR ''-'' else c) raw))"

text \<open>
  02\_tagBinCuePairsWithIDs.py (PS1):
  \<^verbatim>\<open>ID_BYTES_RE = re.compile(rb"(S[LC][A-Z]{2}[A-Z]?[-_][0-9]{3,5}(?:\.[0-9]{2})?)")\<close>
  \<^verbatim>\<open>NAME_CODE_RE = re.compile(r"(S[LC][A-Z]{2}[A-Z]?[-_][0-9]{3,5}(?:\.[0-9]{2})?)", re.IGNORECASE)\<close>
\<close>

definition dot_suffix :: rx where
  "dot_suffix = Opt (seqs [chr CHR ''.'', Rep 2 (Some 2) is_digit])"

definition ID_BYTES_RE_ps1 :: rx where
  "ID_BYTES_RE_ps1 =
     seqs [chr CHR ''S'', oneof ''LC'', Rep 2 (Some 2) is_upper, Opt (Cls is_upper),
           oneof ''-_'', Rep 3 (Some 5) is_digit, dot_suffix]"

definition NAME_CODE_RE_ps1 :: rx where
  "NAME_CODE_RE_ps1 =
     seqs [ichr CHR ''S'', ioneof ''LC'', Rep 2 (Some 2) is_letter, Opt (Cls is_letter),
           oneof ''-_'', Rep 3 (Some 5) is_digit, dot_suffix]"

text \<open>
  04\_tagPs2IsosWithIDs.py (PS2):
  \<^verbatim>\<open>ID_BYTES_RE = re.compile(rb"([A-Z]{4,5}[-_][0-9]{3,5}(?:\.[0-9]{2})?)")\<close>
  \<^verbatim>\<open>NAME_CODE_RE = re.compile(r"([A-Z]{4,5}[-_][0-9]{3,5}(?:\.[0-9]{2})?)", re.IGNORECASE)\<close>
\<close>

definition ID_BYTES_RE_ps2 :: rx where
  "ID_BYTES_RE_ps2 =
     seqs [Rep 4 (Some 5) is_upper, oneof ''-_'', Rep 3 (Some 5) is_digit, dot_suffix]"

definition NAME_CODE_RE_ps2 :: rx where
  "NAME_CODE_RE_ps2 =
     seqs [Rep 4 (Some 5) is_letter, oneof ''-_'', Rep 3 (Some 5) is_digit, dot_suffix]"

definition MAX_SCAN :: nat where
  "MAX_SCAN = 64 * 1024 * 1024"

definition READ_CHUNK :: nat where
  "READ_CHUNK = 4 * 1024 * 1024"

text \<open>\<open>bytes.decode("ascii", errors="ignore")\<close>: bytes above 127 are dropped.\<close>

definition decode_ascii_ignore :: "string \<Rightarrow> string" where
  "decode_ascii_ignore bs = filter (\<lambda>c. \<not> digit7 c) bs"

text \<open>
  \<open>find_disc_code\<close>, the same loop in both taggers, over the bytes of the file that are
  still unread.  \<open>handle.read(n)\<close> on a file returns the next \<open>n\<close> bytes, fewer at the end
  of the file and none after it.  The loop is written for any pattern, chunk size and cap;
  the scripts run it with their own \<open>ID_BYTES_RE\<close>, \<open>READ_CHUNK\<close> and \<open>MAX_SCAN\<close>.
\<close>

function scan_loop :: "rx \<Rightarrow> nat \<Rightarrow> nat \<Rightarrow> nat \<Rightarrow> string \<Rightarrow> string option" where
  "scan_loop r chunk_size cap scanned unread =
     (let chunk = take chunk_size unread in
      if chunk = [] then None
      else let scanned' = scanned + length chunk in
        (case re_search r chunk of
           Some (pre, m, rest) \<Rightarrow> Some (normalize_code (decode_ascii_ignore m))
         | None \<Rightarrow>
             if scanned' \<ge> cap then None
             else scan_loop r chunk_size cap scanned' (drop chunk_size unread)))"
  by pat_completeness auto
termination
  by (relation "measure (\<lambda>(r, chunk_size, cap, scanned, unread). length unread)") auto

declare scan_loop.simps [simp del]

definition find_disc_code_ps1 :: "string \<Rightarrow> string option" where
  "find_disc_code_ps1 content = scan_loop ID_BYTES_RE_ps1 READ_CHUNK MAX_SCAN 0 content"

definition find_disc_code_ps2 :: "string \<Rightarrow> string option" where
  "find_disc_code_ps2 content = scan_loop ID_BYTES_RE_ps2 READ_CHUNK MAX_SCAN 0 content"

text \<open>\<open>extract_code_from_name\<close>, applied to the stem of the path.\<close>

definition extract_code :: "rx \<Rightarrow> string \<Rightarrow> string option" where
  "extract_code r stem =
     (case re_search r stem of None \<Rightarrow> None | Some (pre, m, rest) \<Rightarrow> Some m)"

definition extract_code_from_name_ps1 :: "string \<Rightarrow> string option" where
  "extract_code_from_name_ps1 stem = extract_code NAME_CODE_RE_ps1 stem"

definition extract_code_from_name_ps2 :: "string \<Rightarrow> string option" where
  "extract_code_from_name_ps2 stem = extract_code NAME_CODE_RE_ps2 stem"

text \<open>
  \<open>build_new_stem\<close> of the PS2 tagger, and the two branches of the PS1 tagger's \<open>main\<close>
  that do the same (\<open>NAME_CODE_RE.sub(code, stem, count=1)\<close> and \<open>build_new_base\<close>).
  The code given to them is the result of \<open>normalize_code\<close> on a match and holds no
  backslash, so \<open>sub\<close> inserts it as it is.
\<close>

definition build_new_base :: "string \<Rightarrow> string \<Rightarrow> string" where
  "build_new_base stem code = str_rstrip stem @ '' ['' @ code @ '']''"

definition build_new_stem :: "string \<Rightarrow> string \<Rightarrow> bool \<Rightarrow> string" where
  "build_new_stem stem code has_code =
     (if has_code then re_sub_first NAME_CODE_RE_ps2 code stem
      else str_rstrip stem @ '' ['' @ code @ '']'')"

definition new_stem_ps1 :: "string \<Rightarrow> string \<Rightarrow> bool \<Rightarrow> string" where
  "new_stem_ps1 stem code code_in_name =
     (if code_in_name then re_sub_first NAME_CODE_RE_ps1 code stem
      else build_new_base stem code)"

text \<open>
  \<open>pattern.findall(s)\<close> for a pattern whose only group is the whole pattern: the code
  tokens of a name, from the left, without overlap.
\<close>

function re_findall :: "rx \<Rightarrow> string \<Rightarrow> string list" where
  "re_findall r s =
     (case match_at r s of
        Some (m, rest) \<Rightarrow>
          (if m \<noteq> [] \<and> length rest < length s then m # re_findall r rest
           else (case s of [] \<Rightarrow> [] | c # cs \<Rightarrow> re_findall r cs))
      | None \<Rightarrow> (case s of [] \<Rightarrow> [] | c # cs \<Rightarrow> re_findall r cs))"
  by pat_completeness auto
termination
  by (relation "measure (\<lambda>(r, s). length s)") auto

declare re_findall.simps [simp del]

text \<open>
  The canonical product code of the specification's data model: a prefix of four or five
  uppercase letters, one hyphen, three to five decimal digits.  The PS1 family narrows the
  prefix to \<open>S\<close>, then \<open>L\<close> or \<open>C\<close>, then two or three letters.
\<close>

definition canonical_code :: "string \<Rightarrow> bool" where
  "canonical_code code =
     (let p = takeWhile is_upper code in
      (length p = 4 \<or> length p = 5) \<and>
      (case dropWhile is_upper code of
         [] \<Rightarrow> False
       | h # d \<Rightarrow> h = CHR ''-'' \<and> 3 \<le> length d \<and> length d \<le> 5 \<and> list_all is_digit d))"

definition canonical_code_ps1 :: "string \<Rightarrow> bool" where
  "canonical_code_ps1 code =
     (canonical_code code \<and> take 1 code = ''S'' \<and> take 1 (drop 1 code) \<in> {''L'', ''C''})"

text \<open>
  The wording of the specification for the scan: the stream is cut into chunks of the read
  size, only the chunks within the cap are looked at, in order, and the first match of the
  first chunk that has one is normalised.  \<open>classes r\<close> collects the character classes of a
  pattern.
\<close>

function chunks_of :: "nat \<Rightarrow> string \<Rightarrow> string list" where
  "chunks_of n xs = (if n = 0 \<or> xs = [] then [] else take n xs # chunks_of n (drop n xs))"
  by pat_completeness auto
termination
  by (relation "measure (\<lambda>(n, xs). length xs)") auto

declare chunks_of.simps [simp del]

fun first_match :: "rx \<Rightarrow> string list \<Rightarrow> string option" where
  "first_match r [] = None"
| "first_match r (chunk # cs) =
     (case re_search r chunk of Some (pre, m, rest) \<Rightarrow> Some m | None \<Rightarrow> first_match r cs)"

definition scan_spec :: "rx \<Rightarrow> string \<Rightarrow> string option" where
  "scan_spec r content =
     (case first_match r (take (MAX_SCAN div READ_CHUNK) (chunks_of READ_CHUNK content)) of
        None \<Rightarrow> None
      | Some m \<Rightarrow> Some (normalize_code m))"

fun classes :: "rx \<Rightarrow> (char \<Rightarrow> bool) set" where
  "classes Eps = {}"
| "classes (Cls P) = {P}"
| "classes (Seq a b) = classes a \<union> classes b"
| "classes (Opt a) = classes a"
| "classes (Rep m ub P) = {P}"
| "classes Eos = {}"

section \<open>Grouping discs of one game (03\_compressBinCueGames.py)\<close>

text \<open>
  \<^verbatim>\<open>CODE_SUFFIX_RE = re.compile(r"\s*\[S[LC][A-Z]{2}[A-Z]?-?\d+\]\s*$", re.IGNORECASE)\<close>
  \<^verbatim>\<open>DISC_MARKER_REPS = ((re.compile(r"(?i)\s*\(disc\s*\d+\)"), ""),\<close>
  \<^verbatim>\<open>                    (re.compile(r"(?i)[ _-]*disc[_-]?\s*\d+"), ""))\<close>
  \<^verbatim>\<open>ILLEGAL_FS_CHARS_RE = re.compile(r'[\\/:*?"<>|]')\<close>
\<close>

definition CODE_SUFFIX_RE :: rx where
  "CODE_SUFFIX_RE =
     seqs [Rep 0 None is_space, chr CHR ''['', ichr CHR ''S'', ioneof ''LC'',
           Rep 2 (Some 2) is_letter, Opt (Cls is_letter), Opt (chr CHR ''-''),
           Rep 1 None is_digit, chr CHR '']'', Rep 0 None is_space, Eos]"

definition DISC_PAREN_RE :: rx where
  "DISC_PAREN_RE =
     seqs [Rep 0 None is_space, chr CHR ''('', ichr CHR ''d'', ichr CHR ''i'', ichr CHR ''s'',
           ichr CHR ''c'', Rep 0 None is_space, Rep 1 None is_digit, chr CHR '')'']"

definition DISC_BARE_RE :: rx where
  "DISC_BARE_RE =
     seqs [Rep 0 None (\<lambda>c. c \<in> set '' _-''), ichr CHR ''d'', ichr CHR ''i'', ichr CHR ''s'',
           ichr CHR ''c'', Opt (oneof ''_-''), Rep 0 None is_space, Rep 1 None is_digit]"

definition DISC_MARKER_REPS :: "(rx \<times> string) list" where
  "DISC_MARKER_REPS = [(DISC_PAREN_RE, ''''), (DISC_BARE_RE, '''')]"

definition ILLEGAL_FS_CHARS_RE :: rx where
  "ILLEGAL_FS_CHARS_RE = oneof [CHR 0x5C, CHR ''/'', CHR '':'', CHR ''*'', CHR ''?'', CHR 0x22,
                               CHR ''<'', CHR ''>'', CHR ''|'']"

definition strip_code :: "string \<Rightarrow> string" where
  "strip_code text = re_sub CODE_SUFFIX_RE '''' text"

definition strip_disc_markers :: "string \<Rightarrow> string" where
  "strip_disc_markers text = foldl (\<lambda>t (pattern, repl). re_sub pattern repl t) text DISC_MARKER_REPS"

definition normalize_title :: "string \<Rightarrow> string" where
  "normalize_title text =
     str_strip (re_sub (Rep 1 None is_space) '' '' (str_replace ''_'' '' '' text))"

definition game_key_from_stem :: "string \<Rightarrow> string \<times> string" where
  "game_key_from_stem stem =
     (let cleaned = normalize_title (strip_disc_markers (strip_code stem));
          key = str_lower cleaned
      in (key, cleaned))"

definition sanitize_filename :: "string \<Rightarrow> string" where
  "sanitize_filename name =
     (let sanitized = re_sub ILLEGAL_FS_CHARS_RE ''_'' name;
          sanitized = str_strip (rev (dropWhile (\<lambda>c. c = CHR ''.'') (rev sanitized)))
      in if sanitized = [] then ''archive'' else sanitized)"

text \<open>
  \<open>rejects r c\<close>: no character class of \<open>r\<close> accepts \<open>c\<close> and \<open>r\<close> has no end anchor, so that
  a match of \<open>r\<close> cannot reach or cross a \<open>c\<close>.
\<close>

fun rejects :: "rx \<Rightarrow> char \<Rightarrow> bool" where
  "rejects Eps c = True"
| "rejects (Cls P) c = (\<not> P c)"
| "rejects (Seq a b) c = (rejects a c \<and> rejects b c)"
| "rejects (Opt a) c = rejects a c"
| "rejects (Rep m ub P) c = (\<not> P c)"
| "rejects Eos c = False"

section \<open>Files, directories and the effects of the scripts\<close>

text \<open>
  A path is the list of its components; the empty path is the root of the file system.
  The world holds the regular files with their contents, the directories, each path
  once, and the lines printed so far.  A function with effects returns the world it
  leaves, together with its value or the exception that ended it.
\<close>

type_synonym path = "string list"

datatype error =
    FileNotFoundError
  | FileExistsError
  | SameFileError
  | NotADirectoryError
  | IsADirectoryError

record world =
  files :: "(path \<times> string) list"
  dirs :: "path list"
  log :: "string list"

definition path_name :: "path \<Rightarrow> string" where
  "path_name p = (if p = [] then [] else last p)"

definition is_file :: "world \<Rightarrow> path \<Rightarrow> bool" where
  "is_file w p = (map_of (files w) p \<noteq> None)"

definition is_dir :: "world \<Rightarrow> path \<Rightarrow> bool" where
  "is_dir w p = (p = [] \<or> p \<in> set (dirs w))"

definition entries :: "world \<Rightarrow> path list" where
  "entries w = map fst (files w) @ dirs w"

text \<open>Some directory on the way to \<open>p\<close>, \<open>p\<close> itself apart, is a regular file.\<close>

definition file_on_the_way :: "world \<Rightarrow> path \<Rightarrow> bool" where
  "file_on_the_way w p = list_ex (\<lambda>n. is_file w (take n p)) [1..<length p]"

definition print_line :: "string \<Rightarrow> world \<Rightarrow> world" where
  "print_line msg w = w\<lparr>log := log w @ [msg]\<rparr>"

text \<open>
  Opening \<open>p\<close> for writing fails when \<open>p\<close> is a directory, when a component on the way is a
  regular file, or when the parent directory is missing; otherwise the file gets the text.
\<close>

definition write_error :: "world \<Rightarrow> path \<Rightarrow> error option" where
  "write_error w p =
     (if is_dir w p then Some IsADirectoryError
      else if file_on_the_way w p then Some NotADirectoryError
      else if \<not> is_dir w (butlast p) then Some FileNotFoundError
      else None)"

definition write_text :: "path \<Rightarrow> string \<Rightarrow> world \<Rightarrow> (error + unit) \<times> world" where
  "write_text p text w =
     (case write_error w p of
        Some e \<Rightarrow> (Inl e, w)
      | None \<Rightarrow> (Inr (), w\<lparr>files := AList.update p text (files w)\<rparr>))"

text \<open>
  \<open>Path.mkdir(parents=True, exist_ok=True)\<close>: a regular file on the way or at the path
  itself makes it raise; otherwise the path and its missing ancestors become directories.
\<close>

definition mkdir_parents :: "path \<Rightarrow> world \<Rightarrow> (error + unit) \<times> world" where
  "mkdir_parents p w =
     (if file_on_the_way w p then (Inl NotADirectoryError, w)
      else if is_file w p then (Inl FileExistsError, w)
      else (Inr (), w\<lparr>dirs := dirs w @ filter (\<lambda>q. q \<notin> set (dirs w))
                                            (map (\<lambda>n. take n p) [1..<Suc (length p)])\<rparr>))"

text \<open>
  \<open>shutil.copy2(src, dst)\<close>: a destination that is a directory stands for the file of the
  source's name inside it; copying a file onto itself, a missing or unreadable source and
  a destination that cannot be opened raise.
\<close>

definition copy2 :: "path \<Rightarrow> path \<Rightarrow> world \<Rightarrow> (error + unit) \<times> world" where
  "copy2 src dst w =
     (let target = (if is_dir w dst then dst @ [path_name src] else dst) in
      if src = target \<and> (is_file w src \<or> is_dir w src) then (Inl SameFileError, w)
      else
        case map_of (files w) src of
          None \<Rightarrow>
            (if is_dir w src then (Inl IsADirectoryError, w)
             else if file_on_the_way w src then (Inl NotADirectoryError, w)
             else (Inl FileNotFoundError, w))
        | Some content \<Rightarrow> write_text target content w)"

text \<open>Decimal text of a number, and the format \<open>{n:02d}\<close>.\<close>

function dec :: "nat \<Rightarrow> string" where
  "dec n = (if n < 10 then [digits ! n] else dec (n div 10) @ [digits ! (n mod 10)])"
  by pat_completeness auto
termination
  by (relation "measure id") auto

declare dec.simps [simp del]

definition fmt02d :: "nat \<Rightarrow> string" where
  "fmt02d n = (if n < 10 then ''0'' @ dec n else dec n)"

text \<open>The number that a decimal text denotes (the reading of the specification).\<close>

definition digit_value :: "char \<Rightarrow> nat" where
  "digit_value c = length (takeWhile (\<lambda>d. d \<noteq> c) digits)"

definition dec_value :: "string \<Rightarrow> nat" where
  "dec_value s = foldl (\<lambda>a c. 10 * a + digit_value c) 0 s"

section \<open>Cue synthesis (01\_createSingleBinCue.py)\<close>

text \<open>
  \<open>find_with_depth root pattern max_depth\<close> for the patterns \<open>*.cue\<close> and \<open>*.bin\<close>: what
  \<open>root.rglob\<close> yields, files and directories alike, are the entries below \<open>root\<close> whose
  name ends with the extension; those at most \<open>max_depth\<close> components down are kept and
  sorted as paths.
\<close>

definition ends_with :: "string \<Rightarrow> string \<Rightarrow> bool" where
  "ends_with ext name = (length ext \<le> length name \<and> drop (length name - length ext) name = ext)"

definition below :: "path \<Rightarrow> nat \<Rightarrow> path \<Rightarrow> bool" where
  "below root max_depth p =
     (length root < length p \<and> take (length root) p = root \<and> length p - length root \<le> max_depth)"

definition find_with_depth :: "world \<Rightarrow> path \<Rightarrow> string \<Rightarrow> nat \<Rightarrow> path list" where
  "find_with_depth w root ext max_depth =
     sort (filter (\<lambda>p. ends_with ext (path_name p) \<and> below root max_depth p) (entries w))"

text \<open>
  \<open>synthesize_cue\<close>.  The loop of its second branch is \<open>cue_loop\<close>, with the track number
  and the lines written so far; an exception of \<open>shutil.copy2\<close> ends it.
\<close>

definition file_line :: "string \<Rightarrow> string" where
  "file_line bin_base = ''FILE '' @ [CHR 0x22] @ bin_base @ [CHR 0x22] @ '' BINARY'' @ [CHR 0x0A]"

definition index_line :: string where
  "index_line = ''    INDEX 01 00:00:00'' @ [CHR 0x0A]"

fun cue_loop :: "path \<Rightarrow> path list \<Rightarrow> nat \<Rightarrow> string list \<Rightarrow> world
    \<Rightarrow> (error + string list) \<times> world" where
  "cue_loop dest_dir [] track_num lines w = (Inr lines, w)"
| "cue_loop dest_dir (bin_path # bins) track_num lines w =
     (let bin_base = path_name bin_path in
      case copy2 bin_path (dest_dir @ [bin_base]) w of
        (Inl e, w') \<Rightarrow> (Inl e, w')
      | (Inr _, w') \<Rightarrow>
          cue_loop dest_dir bins (track_num + 1)
            (lines @ [file_line bin_base,
                      if track_num = 1
                      then ''  TRACK '' @ fmt02d track_num @ '' MODE2/2352'' @ [CHR 0x0A]
                      else ''  TRACK '' @ fmt02d track_num @ '' AUDIO'' @ [CHR 0x0A],
                      index_line]) w')"

definition synthesize_cue :: "path list \<Rightarrow> path \<Rightarrow> string \<Rightarrow> world \<Rightarrow> (error + path) \<times> world" where
  "synthesize_cue bins dest_dir base_name w =
     (case mkdir_parents dest_dir w of
        (Inl e, w0) \<Rightarrow> (Inl e, w0)
      | (Inr _, w0) \<Rightarrow>
          let cue_path = dest_dir @ [base_name @ ''.cue''] in
          case (if length bins = 1 then
                  (let bin_base = path_name (bins ! 0) in
                   case copy2 (bins ! 0) (dest_dir @ [bin_base]) w0 of
                     (Inl e, w1) \<Rightarrow> (Inl e, w1)
                   | (Inr _, w1) \<Rightarrow>
                       (Inr [file_line bin_base, ''  TRACK 01 MODE2/2352'' @ [CHR 0x0A], index_line],
                        w1))
                else
                  cue_loop dest_dir bins 1 []
                    (print_line (''    Synthesizing CUE for '' @ dec (length bins) @
                       '' BINs (track1 data, rest audio; order = sorted filenames)'') w0)) of
            (Inl e, w1) \<Rightarrow> (Inl e, w1)
          | (Inr lines, w1) \<Rightarrow>
              (case write_text cue_path (concat lines) w1 of
                 (Inl e, w2) \<Rightarrow> (Inl e, w2)
               | (Inr _, w2) \<Rightarrow> (Inr cue_path, w2)))"

text \<open>
  \<open>tempfile.mkdtemp(dir=tmp_root)\<close> makes a new directory under \<open>tmp_root\<close>.  It draws
  random names, here the list \<open>tmp_names\<close> of the names it would draw, and takes the first
  that does not exist yet; it raises when \<open>tmp_root\<close> is no directory, and when every name
  is taken.
\<close>

fun mkdtemp :: "path \<Rightarrow> string list \<Rightarrow> world \<Rightarrow> (error + path) \<times> world" where
  "mkdtemp tmp_root [] w = (Inl FileExistsError, w)"
| "mkdtemp tmp_root (tmp_name # tmp_names) w =
     (if file_on_the_way w (tmp_root @ [tmp_name]) then (Inl NotADirectoryError, w)
      else if \<not> is_dir w tmp_root then (Inl FileNotFoundError, w)
      else if is_file w (tmp_root @ [tmp_name]) \<or> is_dir w (tmp_root @ [tmp_name])
      then mkdtemp tmp_root tmp_names w
      else (Inr (tmp_root @ [tmp_name]), w\<lparr>dirs := dirs w @ [tmp_root @ [tmp_name]]\<rparr>))"

definition locate_or_build_cue :: "path \<Rightarrow> string \<Rightarrow> path \<Rightarrow> string list \<Rightarrow> world
    \<Rightarrow> (error + path option) \<times> world" where
  "locate_or_build_cue game_dir base tmp_root tmp_names w =
     (case find_with_depth w game_dir ''.cue'' 2 of
        cue # _ \<Rightarrow> (Inr (Some cue), w)
      | [] \<Rightarrow>
          (case find_with_depth w game_dir ''.bin'' 2 of
             [] \<Rightarrow> (Inr None, print_line ''    No CUE or BIN files found; skipping'' w)
           | bin # bins \<Rightarrow>
               (case mkdtemp tmp_root tmp_names w of
                  (Inl e, w') \<Rightarrow> (Inl e, w')
                | (Inr tmp_assets_dir, w') \<Rightarrow>
                    (case synthesize_cue (bin # bins) tmp_assets_dir base w' of
                       (Inl e, w'') \<Rightarrow> (Inl e, w'')
                     | (Inr cue, w'') \<Rightarrow> (Inr (Some cue), w'')))))"

text \<open>
  The cue sheet of the specification: track descriptors, numbered from 1, the first in
  data mode and the others audio, every index at \<open>00:00:00\<close>, and their text.
\<close>

datatype track_mode = Data | Audio

record track =
  number :: nat
  mode :: track_mode
  file_name :: string
  index01 :: string

definition render_track :: "track \<Rightarrow> string" where
  "render_track t =
     ''FILE '' @ [CHR 0x22] @ file_name t @ [CHR 0x22] @ '' BINARY'' @ [CHR 0x0A] @
     ''  TRACK '' @ fmt02d (number t) @ '' '' @
       (case mode t of Data \<Rightarrow> ''MODE2/2352'' | Audio \<Rightarrow> ''AUDIO'') @ [CHR 0x0A] @
     ''    INDEX 01 '' @ index01 t @ [CHR 0x0A]"

definition cue_tracks :: "path list \<Rightarrow> track list" where
  "cue_tracks bins =
     map (\<lambda>(i, b). \<lparr>number = Suc i, mode = (if i = 0 then Data else Audio),
                    file_name = path_name b, index01 = ''00:00:00''\<rparr>)
         (enumerate 0 bins)"

definition track_line :: "nat \<Rightarrow> string" where
  "track_line track_num =
     (if track_num = 1 then ''  TRACK '' @ fmt02d track_num @ '' MODE2/2352'' @ [CHR 0x0A]
      else ''  TRACK '' @ fmt02d track_num @ '' AUDIO'' @ [CHR 0x0A])"

definition track_of :: "nat \<times> path \<Rightarrow> track" where
  "track_of = (\<lambda>(i, b). \<lparr>number = Suc i, mode = (if i = 0 then Data else Audio),
                           file_name = path_name b, index01 = ''00:00:00''\<rparr>)"

text \<open>
  \<open>ready w dest\<close>: \<open>dest\<close> is a directory and no component on the way to it, nor \<open>dest\<close>
  itself, is a regular file.
\<close>

definition clear_way :: "world \<Rightarrow> path \<Rightarrow> bool" where
  "clear_way w p = (\<not> file_on_the_way w p \<and> \<not> is_file w p)"

definition ready :: "world \<Rightarrow> path \<Rightarrow> bool" where
  "ready w dest = (is_dir w dest \<and> clear_way w dest)"

section \<open>Facts about the text functions\<close>

lemma str_replace_Nil [simp]: "str_replace old new [] = []"
  by (subst str_replace.simps) auto

lemma str_replace_char_Cons:
  "str_replace [x] new (c # cs) =
     (if c = x then new @ str_replace [x] new cs else c # str_replace [x] new cs)"
  by (subst str_replace.simps) simp

lemma str_replace_char:
  "str_replace [x] new s = concat (map (\<lambda>c. if c = x then new else [c]) s)"
  by (induction s) (simp_all add: str_replace_char_Cons)

lemma concat_map_single:
  "concat (map (\<lambda>c. if c = x then [y] else [c]) s) = map (\<lambda>c. if c = x then y else c) s"
  by (induction s) simp_all

lemma concat_map_delete:
  "concat (map (\<lambda>c. if c = x then [] else [c]) s) = filter (\<lambda>c. c \<noteq> x) s"
  by (induction s) simp_all

lemma normalize_code_eq_spec: "normalize_code raw = normalize_spec raw"
proof -
  have "str_replace ''_'' ''-'' raw = map (\<lambda>c. if c = CHR ''_'' then CHR ''-'' else c) raw"
    by (simp only: str_replace_char concat_map_single)
  moreover have "str_replace ''.'' [] t = filter (\<lambda>c. c \<noteq> CHR ''.'') t" for t
    by (simp only: str_replace_char concat_map_delete)
  ultimately show ?thesis
    by (simp only: normalize_code_def normalize_spec_def str_upper_def)
qed

lemma char_upper_fixes:
  "c \<notin> set lowers \<Longrightarrow> char_upper c = c"
  by (simp add: char_upper_def lowers_def uppers_def)

lemma upper_of_lowers: "map char_upper lowers = uppers"
  by (simp add: char_upper_def lowers_def uppers_def)

lemma upper_not_lower_all: "list_all (\<lambda>c. char_upper c \<notin> set lowers) lowers"
  by (simp add: char_upper_def lowers_def uppers_def)

lemma char_upper_not_lower: "char_upper c \<notin> set lowers"
proof (cases "c \<in> set lowers")
  case True
  with upper_not_lower_all[unfolded list_all_iff] show ?thesis by (rule bspec)
next
  case False
  then show ?thesis by (simp add: char_upper_fixes)
qed

lemma upper_keeps_others:
  "map char_upper (filter (\<lambda>c. c \<notin> set lowers) s) = filter (\<lambda>c. c \<notin> set lowers) s"
  by (induction s) (simp_all add: char_upper_fixes)

section \<open>Facts about matching\<close>

lemma rmatch_suffix: "t \<in> set (rmatch r s) \<Longrightarrow> \<exists>u. s = u @ t"
proof (induction r arbitrary: s t)
  case Eps
  then show ?case by simp
next
  case (Cls P)
  then show ?case by (cases s) (auto split: if_splits)
next
  case (Seq a b)
  then obtain s' where s': "s' \<in> set (rmatch a s)" and t: "t \<in> set (rmatch b s')"
    by auto
  from Seq.IH(1)[OF s'] obtain u where "s = u @ s'" by blast
  moreover from Seq.IH(2)[OF t] obtain v where "s' = v @ t" by blast
  ultimately have "s = (u @ v) @ t" by simp
  then show ?case by blast
next
  case (Opt a)
  then show ?case by auto
next
  case (Rep m ub P)
  then obtain j where "t = drop j s" by (auto simp: Let_def)
  then have "s = take j s @ t" by simp
  then show ?case by blast
next
  case Eos
  then show ?case by (auto split: if_splits)
qed

lemma match_at_SomeD:
  assumes "match_at r s = Some (m, rest)"
  shows "s = m @ rest" and "rmatch r s \<noteq> []" and "rest = hd (rmatch r s)"
proof -
  from assms obtain ts where ts: "rmatch r s = rest # ts"
    and m: "m = take (length s - length rest) s"
    by (auto simp: match_at_def split: list.splits)
  then have "rest \<in> set (rmatch r s)" by simp
  then obtain u where u: "s = u @ rest" using rmatch_suffix by blast
  then show "s = m @ rest" using m by simp
  show "rmatch r s \<noteq> []" "rest = hd (rmatch r s)" using ts by simp_all
qed

lemma match_at_None_iff: "match_at r s = None \<longleftrightarrow> rmatch r s = []"
  by (simp add: match_at_def split: list.splits)

lemma re_search_SomeD:
  "re_search r s = Some (pre, m, rest) \<Longrightarrow>
     s = pre @ m @ rest \<and> match_at r (m @ rest) = Some (m, rest)"
proof (induction s arbitrary: pre)
  case Nil
  then have a: "match_at r [] = Some (m, rest)" and p: "pre = []"
    by (auto split: option.splits)
  from match_at_SomeD(1)[OF a] have "m = []" "rest = []" by simp_all
  with a p show ?case by simp
next
  case (Cons c cs)
  show ?case
  proof (cases "match_at r (c # cs)")
    case None
    with Cons.prems obtain pre' where s: "re_search r cs = Some (pre', m, rest)"
      and p: "pre = c # pre'"
      by (auto split: option.splits)
    from Cons.IH[OF s] p show ?thesis by simp
  next
    case (Some a)
    with Cons.prems have a: "a = (m, rest)" "pre = []" by (auto split: prod.splits)
    with Some match_at_SomeD(1)[of r "c # cs" m rest] show ?thesis by simp
  qed
qed

text \<open>No match starts inside \<open>a\<close>: the search of \<open>a @ b\<close> is the search of \<open>b\<close>.\<close>

lemma re_search_skip:
  "(\<And>i. i < length a \<Longrightarrow> match_at r (drop i a @ b) = None) \<Longrightarrow>
   re_search r (a @ b) =
     (case re_search r b of None \<Rightarrow> None | Some (pre, m, rest) \<Rightarrow> Some (a @ pre, m, rest))"
proof (induction a)
  case Nil
  then show ?case by (simp split: option.splits)
next
  case (Cons c cs)
  have 0: "match_at r ((c # cs) @ b) = None" using Cons.prems[of 0] by simp
  have "\<And>i. i < length cs \<Longrightarrow> match_at r (drop i cs @ b) = None"
    using Cons.prems[of "Suc _"] by simp
  from Cons.IH[OF this] 0 show ?case by (simp split: option.splits)
qed

lemma re_search_NoneD:
  "re_search r s = None \<Longrightarrow> i \<le> length s \<Longrightarrow> match_at r (drop i s) = None"
proof (induction s arbitrary: i)
  case Nil
  then show ?case by (simp split: option.splits)
next
  case (Cons c cs)
  from Cons.prems(1) have 0: "match_at r (c # cs) = None" and 1: "re_search r cs = None"
    by (auto split: option.splits)
  show ?case
  proof (cases i)
    case 0
    with \<open>match_at r (c # cs) = None\<close> show ?thesis by simp
  next
    case (Suc j)
    with Cons.prems(2) Cons.IH[OF 1, of j] show ?thesis by simp
  qed
qed

lemma takeWhile_append_reject:
  "\<not> P c \<Longrightarrow> takeWhile P (u @ c # x) = takeWhile P u"
  by (induction u) simp_all

lemma rmatch_rejects:
  "rejects r c \<Longrightarrow> rmatch r (u @ c # x) = map (\<lambda>t. t @ c # x) (rmatch r u)"
proof (induction r arbitrary: u)
  case Eps
  then show ?case by simp
next
  case (Cls P)
  then show ?case by (cases u) simp_all
next
  case (Seq a b)
  then show ?case by (simp add: map_concat comp_def)
next
  case (Opt a)
  then show ?case by simp
next
  case (Rep m ub P)
  then have tw: "takeWhile P (u @ c # x) = takeWhile P u"
    by (simp add: takeWhile_append_reject)
  have le: "length (takeWhile P u) \<le> length u" by (rule length_takeWhile_le)
  show ?case
    using le by (cases ub) (auto simp: Let_def tw)
next
  case Eos
  then show ?case by simp
qed

lemma re_search_first:
  "re_search r s = Some (pre, m, rest) \<Longrightarrow> i < length pre \<Longrightarrow> match_at r (drop i s) = None"
proof (induction s arbitrary: pre i)
  case Nil
  then show ?case by (auto split: option.splits)
next
  case (Cons c cs)
  show ?case
  proof (cases "match_at r (c # cs)")
    case None
    with Cons.prems(1) obtain pre' where s: "re_search r cs = Some (pre', m, rest)"
      and p: "pre = c # pre'"
      by (auto split: option.splits)
    show ?thesis
    proof (cases i)
      case 0
      with None show ?thesis by simp
    next
      case (Suc j)
      with Cons.prems(2) p have "j < length pre'" by simp
      from Cons.IH[OF s this] Suc show ?thesis by simp
    qed
  next
    case (Some a)
    with Cons.prems show ?thesis by (auto split: prod.splits)
  qed
qed

lemma re_findall_Nil: "match_at r [] = None \<Longrightarrow> re_findall r [] = []"
  by (subst re_findall.simps) simp

lemma re_findall_skip:
  "(\<And>i. i < length a \<Longrightarrow> match_at r (drop i a @ b) = None) \<Longrightarrow>
   re_findall r (a @ b) = re_findall r b"
proof (induction a)
  case Nil
  then show ?case by simp
next
  case (Cons c cs)
  have 0: "match_at r (c # cs @ b) = None" using Cons.prems[of 0] by simp
  have "\<And>i. i < length cs \<Longrightarrow> match_at r (drop i cs @ b) = None"
    using Cons.prems[of "Suc _"] by simp
  from Cons.IH[OF this] have "re_findall r (cs @ b) = re_findall r b" .
  moreover have "re_findall r (c # cs @ b) = re_findall r (cs @ b)"
    by (subst re_findall.simps) (simp add: 0)
  ultimately show ?case by simp
qed

lemma re_findall_match:
  "match_at r (m @ rest) = Some (m, rest) \<Longrightarrow> m \<noteq> [] \<Longrightarrow>
   re_findall r (m @ rest) = m # re_findall r rest"
  by (subst re_findall.simps) simp

text \<open>First candidates of the matcher.\<close>

lemma rev_upt_Suc: "m \<le> hi \<Longrightarrow> rev [m..<Suc hi] = hi # rev [m..<hi]"
  by simp

lemma first_Seq:
  "rmatch a s = s' # as \<Longrightarrow> rmatch b s' = t # ts \<Longrightarrow> \<exists>us. rmatch (Seq a b) s = t # us"
  by simp

lemma first_Rep:
  assumes "takeWhile P s = p" "m \<le> length p" "ub = Some n" "length p \<le> n"
  shows "\<exists>us. rmatch (Rep m ub P) s = drop (length p) s # us"
  using assms by (simp add: Let_def min_def)

lemma takeWhile_all: "list_all P p \<Longrightarrow> \<not> P c \<Longrightarrow> takeWhile P (p @ c # x) = p"
  by (induction p) simp_all

lemma takeWhile_all_end: "list_all P p \<Longrightarrow> takeWhile P p = p"
  by (induction p) simp_all

lemma char_class_facts:
  "is_upper c \<Longrightarrow> is_letter c"
  "\<not> is_letter CHR ''-''" "\<not> is_upper CHR ''-''" "\<not> is_digit CHR ''-''"
  "is_digit c \<Longrightarrow> \<not> is_upper c"
  by (auto simp: is_upper_def is_letter_def is_digit_def is_lower_def uppers_def lowers_def
      digits_def)

text \<open>The shape of a canonical code.\<close>

lemma canonical_codeD:
  assumes "canonical_code code"
  obtains p d where "code = p @ CHR ''-'' # d" "list_all is_upper p" "length p = 4 \<or> length p = 5"
    "list_all is_digit d" "3 \<le> length d" "length d \<le> 5"
proof -
  let ?p = "takeWhile is_upper code"
  from assms obtain h d where dw: "dropWhile is_upper code = h # d" and h: "h = CHR ''-''"
    and d: "3 \<le> length d" "length d \<le> 5" "list_all is_digit d"
    and p: "length ?p = 4 \<or> length ?p = 5"
    by (auto simp: canonical_code_def Let_def split: list.splits)
  have "code = ?p @ dropWhile is_upper code" by simp
  with dw h have c: "code = ?p @ CHR ''-'' # d" by simp
  have "list_all is_upper ?p"
    by (simp add: list_all_iff) (meson set_takeWhileD)
  with c p d that show thesis by blast
qed

lemma match_canonical_ps2:
  assumes "canonical_code code"
  shows "match_at NAME_CODE_RE_ps2 code = Some (code, [])"
proof -
  from assms obtain p d where code: "code = p @ CHR ''-'' # d" and p: "list_all is_upper p"
    and lp: "length p = 4 \<or> length p = 5" and d: "list_all is_digit d"
    and ld: "3 \<le> length d" "length d \<le> 5"
    by (rule canonical_codeD)
  have pl: "list_all is_letter p"
    using p by (induction p) (simp_all add: char_class_facts)
  have tw: "takeWhile is_letter code = p"
    unfolding code using pl by (rule takeWhile_all) (simp add: char_class_facts)
  from lp obtain us1 where 1: "rmatch (Rep 4 (Some 5) is_letter) code = (CHR ''-'' # d) # us1"
    using first_Rep[OF tw, of 4 "Some 5" 5] by (auto simp: code)
  have 2: "rmatch (oneof ''-_'') (CHR ''-'' # d) = [d]"
    by (simp add: oneof_def)
  have twd: "takeWhile is_digit d = d" using d by (rule takeWhile_all_end)
  from ld obtain us3 where 3: "rmatch (Rep 3 (Some 5) is_digit) d = [] # us3"
    using first_Rep[OF twd, of 3 "Some 5" 5] by auto
  have 4: "rmatch (Seq dot_suffix Eps) [] = [[]]"
    by (simp add: dot_suffix_def seqs_def chr_def)
  from first_Seq[OF 3 4] obtain us5
    where 5: "rmatch (Seq (Rep 3 (Some 5) is_digit) (Seq dot_suffix Eps)) d = [] # us5"
    by blast
  from first_Seq[OF 2 5] obtain us6
    where 6: "rmatch (Seq (oneof ''-_'') (Seq (Rep 3 (Some 5) is_digit) (Seq dot_suffix Eps)))
                (CHR ''-'' # d) = [] # us6"
    by blast
  from first_Seq[OF 1 6] obtain us7 where "rmatch NAME_CODE_RE_ps2 code = [] # us7"
    unfolding NAME_CODE_RE_ps2_def seqs_def by auto
  then show ?thesis by (simp add: match_at_def)
qed

lemma match_at_rejects:
  assumes "rejects r c"
  shows "match_at r (u @ c # x) =
           (case match_at r u of None \<Rightarrow> None | Some (m, t) \<Rightarrow> Some (m, t @ c # x))"
proof (cases "rmatch r u")
  case Nil
  with assms show ?thesis by (simp add: match_at_def rmatch_rejects)
next
  case (Cons t ts)
  then have "t \<in> set (rmatch r u)" by simp
  then obtain v where v: "u = v @ t" using rmatch_suffix by blast
  have 1: "match_at r u = Some (v, t)"
    using Cons v by (simp add: match_at_def)
  have "rmatch r (u @ c # x) = (t @ c # x) # map (\<lambda>t. t @ c # x) ts"
    using Cons assms by (simp add: rmatch_rejects)
  then have "match_at r (u @ c # x) = Some (v, t @ c # x)"
    using v by (simp add: match_at_def)
  with 1 show ?thesis by simp
qed

lemma match_at_rejects_None:
  "rejects r c \<Longrightarrow> match_at r (u @ c # x) = None \<longleftrightarrow> match_at r u = None"
  by (simp add: match_at_rejects split: option.splits)

lemma rstrip_decomp: "\<exists>ws. s = str_rstrip s @ ws \<and> list_all is_space ws"
proof -
  let ?ws = "rev (takeWhile is_space (rev s))"
  have "rev (takeWhile is_space (rev s) @ dropWhile is_space (rev s)) = rev (rev s)"
    by (simp only: takeWhile_dropWhile_id)
  then have "s = str_rstrip s @ ?ws"
    by (simp only: rev_append rev_rev_ident str_rstrip_def)
  moreover have "list_all is_space ?ws"
    by (simp add: list_all_iff) (meson set_takeWhileD)
  ultimately show ?thesis by blast
qed

text \<open>
  A stem without a match, its trailing white space removed and followed by a character the
  pattern rejects, still has no match starting inside it.
\<close>

lemma no_match_in_trimmed:
  assumes none: "re_search r stem = None"
    and sp: "\<And>w. is_space w \<Longrightarrow> rejects r w"
    and c: "rejects r c"
    and i: "i \<le> length (str_rstrip stem)"
  shows "match_at r (drop i (str_rstrip stem) @ c # x) = None"
proof -
  define t where "t = str_rstrip stem"
  obtain ws where s: "stem = t @ ws" and ws: "list_all is_space ws"
    unfolding t_def using rstrip_decomp by blast
  from i have it: "i \<le> length t" by (simp add: t_def)
  then have "i \<le> length stem" by (simp add: s)
  from re_search_NoneD[OF none this] have "match_at r (drop i (t @ ws)) = None"
    by (simp only: s[symmetric])
  then have d: "match_at r (drop i t @ ws) = None"
    using it by simp
  have "match_at r (drop i t) = None"
  proof (cases ws)
    case Nil
    with d show ?thesis by simp
  next
    case (Cons w ws')
    with ws have "rejects r w" by (simp add: sp)
    from match_at_rejects_None[OF this, of "drop i t" ws'] d Cons show ?thesis by simp
  qed
  then have "match_at r (drop i t @ c # x) = None"
    by (simp only: match_at_rejects_None[OF c])
  then show ?thesis by (simp only: t_def)
qed

lemma sep_chars_all:
  "list_all (\<lambda>c. \<not> is_letter c \<and> \<not> is_digit c \<and> c \<notin> set ''-_'' \<and> c \<noteq> CHR ''.'' \<and>
      char_lower c = c) (CHR ''['' # CHR '']'' # spaces)"
  by (simp add: spaces_def is_letter_def is_upper_def is_lower_def is_digit_def uppers_def
      lowers_def digits_def char_lower_def)

lemma sep_char_facts:
  assumes "is_space c \<or> c = CHR ''['' \<or> c = CHR '']''"
  shows "\<not> is_letter c" "\<not> is_digit c" "c \<notin> set ''-_''" "c \<noteq> CHR ''.''"
    "char_lower c = c"
proof -
  from assms have c: "c \<in> set (CHR ''['' # CHR '']'' # spaces)"
    by (auto simp: is_space_def)
  from sep_chars_all[unfolded list_all_iff] c
  have "\<not> is_letter c \<and> \<not> is_digit c \<and> c \<notin> set ''-_'' \<and> c \<noteq> CHR ''.'' \<and> char_lower c = c"
    by (rule bspec)
  then show "\<not> is_letter c" "\<not> is_digit c" "c \<notin> set ''-_''" "c \<noteq> CHR ''.''"
    "char_lower c = c"
    by blast+
qed

lemma rejects_ps2:
  assumes "is_space c \<or> c = CHR ''['' \<or> c = CHR '']''"
  shows "rejects NAME_CODE_RE_ps2 c"
  using sep_char_facts[OF assms]
  by (simp add: NAME_CODE_RE_ps2_def seqs_def oneof_def chr_def dot_suffix_def)

lemma char_lower_consts:
  "char_lower CHR ''S'' = CHR ''s''" "char_lower CHR ''L'' = CHR ''l''"
  "char_lower CHR ''C'' = CHR ''c''"
  by (simp_all add: char_lower_def uppers_def lowers_def)

lemma rejects_ps1:
  assumes "is_space c \<or> c = CHR ''['' \<or> c = CHR '']''"
  shows "rejects NAME_CODE_RE_ps1 c"
proof -
  have "c \<noteq> CHR ''s''" "c \<noteq> CHR ''l''" "c \<noteq> CHR ''c''"
    using sep_char_facts(1)[OF assms]
    by (auto simp: is_letter_def is_lower_def lowers_def)
  with sep_char_facts[OF assms] show ?thesis
    by (simp add: NAME_CODE_RE_ps1_def seqs_def oneof_def ioneof_def ichr_def chr_def
        dot_suffix_def char_lower_consts)
qed

lemma canonical_code_nonempty: "canonical_code code \<Longrightarrow> code \<noteq> []"
  by (auto simp: canonical_code_def)

lemma upper_id_all: "list_all (\<lambda>c. char_upper c = c) (CHR ''-'' # uppers @ digits)"
  by (simp add: char_upper_def uppers_def lowers_def digits_def)

lemma char_upper_id:
  assumes "is_upper c \<or> is_digit c \<or> c = CHR ''-''"
  shows "char_upper c = c"
proof -
  from assms have "c \<in> set (CHR ''-'' # uppers @ digits)"
    by (auto simp: is_upper_def is_digit_def)
  with upper_id_all[unfolded list_all_iff] show ?thesis by (rule bspec)
qed

lemma no_us_dot_all:
  "list_all (\<lambda>c. c \<noteq> CHR ''_'' \<and> c \<noteq> CHR ''.'') (CHR ''-'' # uppers @ digits)"
  by (simp add: uppers_def digits_def)

lemma code_char_plain:
  assumes "is_upper c \<or> is_digit c \<or> c = CHR ''-''"
  shows "c \<noteq> CHR ''_'' \<and> c \<noteq> CHR ''.''"
proof -
  from assms have "c \<in> set (CHR ''-'' # uppers @ digits)"
    by (auto simp: is_upper_def is_digit_def)
  with no_us_dot_all[unfolded list_all_iff] show ?thesis by (rule bspec)
qed

lemma normalize_canonical:
  assumes "canonical_code code"
  shows "normalize_code code = code"
proof -
  from assms obtain p d where code: "code = p @ CHR ''-'' # d" and p: "list_all is_upper p"
    and d: "list_all is_digit d"
    by (rule canonical_codeD)
  have ok: "\<forall>c\<in>set code. is_upper c \<or> is_digit c \<or> c = CHR ''-''"
    using p d by (auto simp: code list_all_iff)
  have a: "\<forall>c\<in>set s. is_upper c \<or> is_digit c \<or> c = CHR ''-'' \<Longrightarrow> normalize_spec s = s" for s
  proof (induction s)
    case Nil
    then show ?case by (simp add: normalize_spec_def)
  next
    case (Cons c s)
    then have c: "is_upper c \<or> is_digit c \<or> c = CHR ''-''" and s: "normalize_spec s = s"
      by simp_all
    from code_char_plain[OF c] have "c \<noteq> CHR ''_''" "c \<noteq> CHR ''.''"
      by simp_all
    with s char_upper_id[OF c] show ?case by (simp add: normalize_spec_def)
  qed
  from a[OF ok] show ?thesis by (simp add: normalize_code_eq_spec)
qed

lemma search_composed:
  assumes none: "re_search r stem = None"
    and sp: "\<And>w. is_space w \<Longrightarrow> rejects r w"
    and lb: "rejects r CHR ''[''" and rb: "rejects r CHR '']''"
    and m: "match_at r code = Some (code, [])" and ne: "code \<noteq> []"
  shows "re_search r (str_rstrip stem @ '' ['' @ code @ '']'') =
           Some (str_rstrip stem @ '' ['', code, '']'')"
    and "re_findall r (str_rstrip stem @ '' ['' @ code @ '']'') = [code]"
proof -
  let ?t = "str_rstrip stem"
  let ?a = "?t @ '' [''" and ?b = "code @ '']''"
  have space: "is_space CHR '' ''" by (simp add: is_space_def spaces_def)
  have e: "match_at r [] = None"
    using re_search_NoneD[OF none, of "length stem"] by simp
  have skip: "match_at r (drop i ?a @ ?b) = None" if "i < length ?a" for i
  proof -
    have "i < length ?t + 2" using that by simp
    then consider "i \<le> length ?t" | "i = Suc (length ?t)" by linarith
    then show ?thesis
    proof cases
      case 1
      from no_match_in_trimmed[OF none sp sp[OF space] 1, of "CHR ''['' # ?b"] 1
      show ?thesis by simp
    next
      case 2
      have "match_at r ([] @ CHR ''['' # ?b) = None"
        using e by (simp only: match_at_rejects_None[OF lb])
      with 2 show ?thesis by simp
    qed
  qed
  have mb: "match_at r ?b = Some (code, '']'')"
    using match_at_rejects[OF rb, of code "[]"] m by simp
  have sb: "re_search r ?b = Some ([], code, '']'')"
    using mb ne by (cases code) simp_all
  from re_search_skip[of ?a r ?b, OF skip] sb
  show "re_search r (?t @ '' ['' @ code @ '']'') = Some (?t @ '' ['', code, '']'')"
    by simp
  have r1: "match_at r ([] @ CHR '']'' # []) = None"
    using e by (simp only: match_at_rejects_None[OF rb])
  have "re_findall r '']'' = []"
    using r1 e by (subst re_findall.simps) (simp add: re_findall_Nil)
  with re_findall_match[OF mb ne] have "re_findall r ?b = [code]" by simp
  with re_findall_skip[of ?a r ?b, OF skip]
  show "re_findall r (?t @ '' ['' @ code @ '']'') = [code]" by simp
qed

lemma seqs_Nil: "seqs [] = Eps"
  by (simp add: seqs_def)

lemma seqs_Cons: "seqs (r # rs) = Seq r (seqs rs)"
  by (simp add: seqs_def)

lemma code_tail_match:
  assumes d: "list_all is_digit d" and ld: "3 \<le> length d" "length d \<le> 5"
  shows "\<exists>us. rmatch (seqs [oneof ''-_'', Rep 3 (Some 5) is_digit, dot_suffix]) (CHR ''-'' # d)
           = [] # us"
proof -
  have 2: "rmatch (oneof ''-_'') (CHR ''-'' # d) = [d]"
    by (simp add: oneof_def)
  have twd: "takeWhile is_digit d = d" using d by (rule takeWhile_all_end)
  from ld obtain us3 where 3: "rmatch (Rep 3 (Some 5) is_digit) d = [] # us3"
    using first_Rep[OF twd, of 3 "Some 5" 5] by auto
  have 4: "rmatch (Seq dot_suffix Eps) [] = [[]]"
    by (simp add: dot_suffix_def seqs_def chr_def)
  from first_Seq[OF 3 4] obtain us5
    where 5: "rmatch (Seq (Rep 3 (Some 5) is_digit) (Seq dot_suffix Eps)) d = [] # us5"
    by blast
  from first_Seq[OF 2 5] show ?thesis
    by (simp only: seqs_Cons seqs_Nil)
qed

lemma canonical_code_ps1D:
  assumes "canonical_code_ps1 code"
  obtains x a b q d where "code = CHR ''S'' # x # a # b # q @ CHR ''-'' # d"
    "x = CHR ''L'' \<or> x = CHR ''C''" "is_upper a" "is_upper b"
    "q = [] \<or> (\<exists>c. q = [c] \<and> is_upper c)"
    "list_all is_digit d" "3 \<le> length d" "length d \<le> 5"
proof -
  from assms have cc: "canonical_code code" and s: "take 1 code = ''S''"
    and x: "take 1 (drop 1 code) \<in> {''L'', ''C''}"
    by (simp_all add: canonical_code_ps1_def)
  from cc obtain p d where code: "code = p @ CHR ''-'' # d" and p: "list_all is_upper p"
    and lp: "length p = 4 \<or> length p = 5" and d: "list_all is_digit d"
    and ld: "3 \<le> length d" "length d \<le> 5"
    by (rule canonical_codeD)
  from lp obtain p0 p1 a b q where pq: "p = p0 # p1 # a # b # q" and q: "length q \<le> 1"
    by (cases p; cases "tl p"; cases "tl (tl p)"; cases "tl (tl (tl p))") auto
  from s x code pq have "p0 = CHR ''S''" "p1 = CHR ''L'' \<or> p1 = CHR ''C''" by auto
  moreover from p pq have "is_upper a" "is_upper b" "list_all is_upper q" by simp_all
  moreover from q \<open>list_all is_upper q\<close> have "q = [] \<or> (\<exists>c. q = [c] \<and> is_upper c)"
    by (cases q) auto
  ultimately show thesis using that code pq d ld by auto
qed

lemma match_canonical_ps1:
  assumes "canonical_code_ps1 code"
  shows "match_at NAME_CODE_RE_ps1 code = Some (code, [])"
proof -
  from assms obtain x a b q d where code: "code = CHR ''S'' # x # a # b # q @ CHR ''-'' # d"
    and x: "x = CHR ''L'' \<or> x = CHR ''C''" and ab: "is_upper a" "is_upper b"
    and q: "q = [] \<or> (\<exists>c. q = [c] \<and> is_upper c)"
    and d: "list_all is_digit d" and ld: "3 \<le> length d" "length d \<le> 5"
    by (rule canonical_code_ps1D)
  let ?tail = "seqs [oneof ''-_'', Rep 3 (Some 5) is_digit, dot_suffix]"
  from code_tail_match[OF d ld] obtain us where t: "rmatch ?tail (CHR ''-'' # d) = [] # us"
    by blast
  have lq: "list_all is_letter q" using q by (auto simp: char_class_facts)
  have lab: "is_letter a" "is_letter b"
    using ab by (simp_all add: char_class_facts(1))
  have tw: "takeWhile is_letter (q @ CHR ''-'' # d) = q"
    using lq by (rule takeWhile_all) (simp add: char_class_facts(2))
  have 3: "rmatch (Rep 2 (Some 2) is_letter) (a # b # q @ CHR ''-'' # d) = [q @ CHR ''-'' # d]"
    by (simp add: lab tw Let_def)
  have 4: "\<exists>vs. rmatch (Opt (Cls is_letter)) (q @ CHR ''-'' # d) = (CHR ''-'' # d) # vs"
    using q by (auto simp: char_class_facts)
  then obtain vs where 4: "rmatch (Opt (Cls is_letter)) (q @ CHR ''-'' # d) = (CHR ''-'' # d) # vs"
    by blast
  from first_Seq[OF 4 t] obtain ws
    where 5: "rmatch (Seq (Opt (Cls is_letter)) ?tail) (q @ CHR ''-'' # d) = [] # ws"
    by blast
  have 6: "rmatch (Seq (Rep 2 (Some 2) is_letter) (Seq (Opt (Cls is_letter)) ?tail))
             (a # b # q @ CHR ''-'' # d) = [] # ws"
    using 3 5 by simp
  have 1: "rmatch (ichr CHR ''S'') code = [x # a # b # q @ CHR ''-'' # d]"
    by (simp add: code ichr_def)
  have 2: "rmatch (ioneof ''LC'') (x # a # b # q @ CHR ''-'' # d) = [a # b # q @ CHR ''-'' # d]"
    using x by (auto simp: ioneof_def)
  have re: "NAME_CODE_RE_ps1 = Seq (ichr CHR ''S'') (Seq (ioneof ''LC'')
              (Seq (Rep 2 (Some 2) is_letter) (Seq (Opt (Cls is_letter)) ?tail)))"
    by (simp add: NAME_CODE_RE_ps1_def seqs_def)
  have "rmatch NAME_CODE_RE_ps1 code = [] # ws"
    unfolding re using 1 2 6 by simp
  then show ?thesis by (simp add: match_at_def)
qed

lemma canonical_ps1_canonical: "canonical_code_ps1 code \<Longrightarrow> canonical_code code"
  by (simp add: canonical_code_ps1_def)

lemma build_new_stem_replace:
  "re_search NAME_CODE_RE_ps2 stem = Some (pre, m, rest) \<Longrightarrow>
   build_new_stem stem code True = pre @ code @ rest"
  by (simp add: build_new_stem_def re_sub_first_def)

section \<open>Facts about the chunked scan\<close>

lemma rmatch_consumed:
  "t \<in> set (rmatch r s) \<Longrightarrow> \<exists>u. s = u @ t \<and> (\<forall>c\<in>set u. \<exists>P\<in>classes r. P c)"
proof (induction r arbitrary: s t)
  case Eps
  then show ?case by simp
next
  case (Cls P)
  then obtain c where "s = c # t" "P c" by (cases s) (auto split: if_splits)
  then have "s = [c] @ t \<and> (\<forall>x\<in>set [c]. \<exists>Q\<in>classes (Cls P). Q x)" by simp
  then show ?case by blast
next
  case (Seq a b)
  then obtain s' where s': "s' \<in> set (rmatch a s)" and t: "t \<in> set (rmatch b s')"
    by auto
  from Seq.IH(1)[OF s'] obtain u where u: "s = u @ s'" "\<forall>c\<in>set u. \<exists>P\<in>classes a. P c"
    by blast
  from Seq.IH(2)[OF t] obtain v where v: "s' = v @ t" "\<forall>c\<in>set v. \<exists>P\<in>classes b. P c"
    by blast
  from u v have "s = (u @ v) @ t \<and> (\<forall>c\<in>set (u @ v). \<exists>P\<in>classes (Seq a b). P c)"
    by auto
  then show ?case by blast
next
  case (Opt a)
  then consider "t \<in> set (rmatch a s)" | "t = s" by auto
  then show ?case
  proof cases
    case 1
    from Opt.IH[OF 1] show ?thesis by simp
  next
    case 2
    then show ?thesis by simp
  qed
next
  case (Rep m ub P)
  let ?k = "length (takeWhile P s)"
  from Rep obtain j where j: "t = drop j s" "j \<le> ?k"
    by (cases ub) (auto simp: Let_def)
  have "take j (takeWhile P s) = take j (take ?k s)"
    by (simp only: takeWhile_eq_take[symmetric])
  also have "\<dots> = take j s" using j(2) by (simp add: min_def)
  finally have tj: "take j s = take j (takeWhile P s)" by simp
  have "\<forall>c\<in>set (take j s). P c"
  proof
    fix c assume "c \<in> set (take j s)"
    then have "c \<in> set (takeWhile P s)" unfolding tj by (rule in_set_takeD)
    then show "P c" by (rule set_takeWhileD[THEN conjunct2])
  qed
  with j have "s = take j s @ t \<and> (\<forall>c\<in>set (take j s). \<exists>Q\<in>classes (Rep m ub P). Q c)"
    by simp
  then show ?case by blast
next
  case Eos
  then show ?case by (auto split: if_splits)
qed

lemma match_at_consumed:
  assumes "match_at r s = Some (m, rest)"
  shows "\<forall>c\<in>set m. \<exists>P\<in>classes r. P c"
proof -
  from assms obtain ts where ts: "rmatch r s = rest # ts"
    and m: "m = take (length s - length rest) s"
    by (auto simp: match_at_def split: list.splits)
  then have "rest \<in> set (rmatch r s)" by simp
  from rmatch_consumed[OF this] obtain u where "s = u @ rest" "\<forall>c\<in>set u. \<exists>P\<in>classes r. P c"
    by blast
  with m show ?thesis by simp
qed

lemma code_chars_ascii: "list_all (\<lambda>c. \<not> digit7 c) (''-_.SLC'' @ uppers @ digits)"
  by (simp add: uppers_def digits_def)

lemma code_char_ascii:
  assumes "c = CHR ''S'' \<or> c \<in> set ''LC'' \<or> is_upper c \<or> c \<in> set ''-_'' \<or> is_digit c \<or> c = CHR ''.''"
  shows "\<not> digit7 c"
proof -
  from assms have "c \<in> set (''-_.SLC'' @ uppers @ digits)"
    by (auto simp: is_upper_def is_digit_def)
  with code_chars_ascii[unfolded list_all_iff] show ?thesis by (rule bspec)
qed

lemma classes_ID_ps1:
  "classes ID_BYTES_RE_ps1 =
     {\<lambda>c. c = CHR ''S'', \<lambda>c. c \<in> set ''LC'', is_upper, \<lambda>c. c \<in> set ''-_'', is_digit,
      \<lambda>c. c = CHR ''.''}"
  by (simp add: ID_BYTES_RE_ps1_def seqs_Cons seqs_Nil chr_def oneof_def dot_suffix_def
      insert_commute)

lemma classes_ID_ps2:
  "classes ID_BYTES_RE_ps2 =
     {is_upper, \<lambda>c. c \<in> set ''-_'', is_digit, \<lambda>c. c = CHR ''.''}"
  by (simp add: ID_BYTES_RE_ps2_def seqs_Cons seqs_Nil chr_def oneof_def dot_suffix_def
      insert_commute)

lemma decode_match_id:
  assumes "r = ID_BYTES_RE_ps1 \<or> r = ID_BYTES_RE_ps2"
    and "re_search r s = Some (pre, m, rest)"
  shows "decode_ascii_ignore m = m"
proof -
  from re_search_SomeD[OF assms(2)] have "match_at r (m @ rest) = Some (m, rest)" by simp
  from match_at_consumed[OF this] have "\<forall>c\<in>set m. \<exists>P\<in>classes r. P c" .
  have "\<not> digit7 c" if "\<exists>P\<in>classes r. P c" for c
  proof (rule code_char_ascii)
    from assms(1) that
    show "c = CHR ''S'' \<or> c \<in> set ''LC'' \<or> is_upper c \<or> c \<in> set ''-_'' \<or> is_digit c \<or> c = CHR ''.''"
      by (elim disjE) (auto simp: classes_ID_ps1 classes_ID_ps2)
  qed
  with \<open>\<forall>c\<in>set m. \<exists>P\<in>classes r. P c\<close> have "\<forall>c\<in>set m. \<not> digit7 c" by blast
  then show ?thesis by (simp add: decode_ascii_ignore_def)
qed

lemma scan_loop_Nil: "scan_loop r rc cap scanned [] = None"
  by (subst scan_loop.simps) simp

lemma chunks_of_Nil: "chunks_of n [] = []"
  by (subst chunks_of.simps) simp

lemma chunks_of_step: "0 < n \<Longrightarrow> xs \<noteq> [] \<Longrightarrow> chunks_of n xs = take n xs # chunks_of n (drop n xs)"
  by (subst chunks_of.simps) simp

lemma scan_loop_step_None:
  "take rc unread \<noteq> [] \<Longrightarrow> re_search r (take rc unread) = None \<Longrightarrow>
   scan_loop r rc cap scanned unread =
     (if cap \<le> scanned + length (take rc unread) then None
      else scan_loop r rc cap (scanned + length (take rc unread)) (drop rc unread))"
  by (subst scan_loop.simps) (simp add: Let_def)

lemma scan_loop_step_Some:
  "take rc unread \<noteq> [] \<Longrightarrow> re_search r (take rc unread) = Some (pre, m, rest) \<Longrightarrow>
   scan_loop r rc cap scanned unread = Some (normalize_code (decode_ascii_ignore m))"
  by (subst scan_loop.simps) (simp add: Let_def)

lemma scan_loop_chunks:
  assumes "0 < rc" and "j < k"
  shows "scan_loop r rc (k * rc) (j * rc) unread =
           (case first_match r (take (k - j) (chunks_of rc unread)) of
              None \<Rightarrow> None
            | Some m \<Rightarrow> Some (normalize_code (decode_ascii_ignore m)))"
  using assms(2)
proof (induction "length unread" arbitrary: unread j rule: less_induct)
  case less
  show ?case
  proof (cases "unread = []")
    case True
    then show ?thesis by (simp add: scan_loop_Nil chunks_of_Nil)
  next
    case False
    let ?chunk = "take rc unread"
    have ne: "?chunk \<noteq> []" using False assms(1) by simp
    obtain d where d: "k - j = Suc d" using less.prems by (cases "k - j") simp_all
    have ch: "take (k - j) (chunks_of rc unread) = ?chunk # take d (chunks_of rc (drop rc unread))"
      by (simp add: chunks_of_step[OF assms(1) False] d)
    show ?thesis
    proof (cases "re_search r ?chunk")
      case (Some a)
      then obtain pre m rest where "re_search r ?chunk = Some (pre, m, rest)"
        by (cases a) auto
      then show ?thesis
        by (simp add: scan_loop_step_Some[OF ne] ch)
    next
      case None
      show ?thesis
      proof (cases "rc \<le> length unread")
        case True
        then have len: "j * rc + length ?chunk = Suc j * rc" by simp
        show ?thesis
        proof (cases "Suc j < k")
          case True
          then have "Suc j * rc < k * rc" using assms(1) by (rule mult_less_mono1)
          then have "\<not> k * rc \<le> Suc j * rc" by (simp only: not_le)
          moreover have "length (drop rc unread) < length unread"
            using False assms(1) by simp
          from less.hyps[OF this True] have
            "scan_loop r rc (k * rc) (Suc j * rc) (drop rc unread) =
               (case first_match r (take (k - Suc j) (chunks_of rc (drop rc unread))) of
                  None \<Rightarrow> None
                | Some m \<Rightarrow> Some (normalize_code (decode_ascii_ignore m)))" .
          moreover have "k - Suc j = d" using d by simp
          ultimately show ?thesis
            by (simp only: scan_loop_step_None[OF ne None] len ch first_match.simps None
                if_False option.case)
        next
          case False
          with less.prems d have d0: "d = 0" and "k = Suc j" by simp_all
          then have "k * rc \<le> Suc j * rc" by simp
          then show ?thesis
            by (simp only: scan_loop_step_None[OF ne None] len ch first_match.simps None
                if_True option.case d0 take_0)
        qed
      next
        case False
        then have dr: "drop rc unread = []" and len: "length ?chunk = length unread" by simp_all
        have "j * rc + length unread < Suc j * rc" using False by simp
        also have "\<dots> \<le> k * rc" using less.prems by (intro mult_le_mono1 Suc_leI)
        finally have "\<not> k * rc \<le> j * rc + length unread" by simp
        then show ?thesis
          by (simp only: scan_loop_step_None[OF ne None] len dr ch first_match.simps None
              if_False option.case scan_loop_Nil chunks_of_Nil take_Nil)
      qed
    qed
  qed
qed

lemma first_match_SomeD:
  "first_match r cs = Some m \<Longrightarrow> \<exists>ch pre rest. re_search r ch = Some (pre, m, rest)"
  by (induction cs) (auto split: option.splits)

lemma scan_constants: "MAX_SCAN = 16 * READ_CHUNK" "0 < READ_CHUNK" "MAX_SCAN div READ_CHUNK = 16"
  by (simp_all add: MAX_SCAN_def READ_CHUNK_def)

lemma scan_loop_spec:
  assumes "r = ID_BYTES_RE_ps1 \<or> r = ID_BYTES_RE_ps2"
  shows "scan_loop r READ_CHUNK MAX_SCAN 0 content = scan_spec r content"
proof -
  let ?fm = "first_match r (take 16 (chunks_of READ_CHUNK content))"
  have "scan_loop r READ_CHUNK (16 * READ_CHUNK) (0 * READ_CHUNK) content =
          (case first_match r (take (16 - 0) (chunks_of READ_CHUNK content)) of
             None \<Rightarrow> None
           | Some m \<Rightarrow> Some (normalize_code (decode_ascii_ignore m)))"
    by (rule scan_loop_chunks) (simp_all add: scan_constants)
  then have 1: "scan_loop r READ_CHUNK MAX_SCAN 0 content =
          (case ?fm of None \<Rightarrow> None
           | Some m \<Rightarrow> Some (normalize_code (decode_ascii_ignore m)))"
    by (simp add: scan_constants(1))
  have "decode_ascii_ignore m = m" if "?fm = Some m" for m
    using first_match_SomeD[OF that] decode_match_id[OF assms] by blast
  then show ?thesis
    unfolding 1 scan_spec_def scan_constants(3) by (cases ?fm) simp_all
qed

lemma zero_not_upper: "\<not> is_upper (CHR 0x00)"
  by (simp add: is_upper_def uppers_def)

lemma no_match_at_zero:
  "match_at ID_BYTES_RE_ps1 (CHR 0x00 # s) = None"
  "match_at ID_BYTES_RE_ps2 (CHR 0x00 # s) = None"
  "match_at ID_BYTES_RE_ps1 [] = None"
  "match_at ID_BYTES_RE_ps2 [] = None"
  by (simp_all add: match_at_def ID_BYTES_RE_ps1_def ID_BYTES_RE_ps2_def seqs_Cons chr_def
      zero_not_upper)

lemma search_after_zeros:
  assumes "r = ID_BYTES_RE_ps1 \<or> r = ID_BYTES_RE_ps2"
  shows "re_search r (replicate n (CHR 0x00) @ b) =
           (case re_search r b of None \<Rightarrow> None
            | Some (pre, m, rest) \<Rightarrow> Some (replicate n (CHR 0x00) @ pre, m, rest))"
proof (rule re_search_skip)
  fix i assume "i < length (replicate n (CHR 0x00))"
  then obtain d where "n - i = Suc d" by (cases "n - i") simp_all
  then have "drop i (replicate n (CHR 0x00)) @ b = CHR 0x00 # (replicate d (CHR 0x00) @ b)"
    by simp
  with assms show "match_at r (drop i (replicate n (CHR 0x00)) @ b) = None"
    by (auto simp: no_match_at_zero)
qed

lemma search_zeros:
  assumes "r = ID_BYTES_RE_ps1 \<or> r = ID_BYTES_RE_ps2"
  shows "re_search r (replicate n (CHR 0x00)) = None"
proof -
  from assms have "re_search r [] = None" by (auto simp: no_match_at_zero)
  with search_after_zeros[OF assms, of n "[]"] show ?thesis by simp
qed

lemma chunks_of_zeros:
  assumes "0 < n"
  shows "chunks_of n (replicate (k * n) z @ s) = replicate k (replicate n z) @ chunks_of n s"
proof (induction k)
  case 0
  then show ?case by simp
next
  case (Suc k)
  have "replicate (Suc k * n) z @ s = replicate n z @ (replicate (k * n) z @ s)"
    by (simp add: replicate_add)
  moreover have "chunks_of n (replicate n z @ t) = replicate n z # chunks_of n t" for t
    using assms by (subst chunks_of.simps) simp
  ultimately show ?case using Suc.IH by simp
qed

lemma first_match_replicate:
  "re_search r c = None \<Longrightarrow> first_match r (replicate k c) = None"
  by (induction k) simp_all

lemma past_cap_None:
  assumes "r = ID_BYTES_RE_ps1 \<or> r = ID_BYTES_RE_ps2"
  shows "scan_spec r (replicate 67108864 (CHR 0x00) @ s) = None"
proof -
  have e: "(67108864::nat) = 16 * READ_CHUNK" by (simp add: READ_CHUNK_def)
  have "chunks_of READ_CHUNK (replicate 67108864 (CHR 0x00) @ s) =
      replicate 16 (replicate READ_CHUNK (CHR 0x00)) @ chunks_of READ_CHUNK s"
    by (simp only: e chunks_of_zeros[OF scan_constants(2)])
  then have "take 16 (chunks_of READ_CHUNK (replicate 67108864 (CHR 0x00) @ s)) =
      replicate 16 (replicate READ_CHUNK (CHR 0x00))"
    by simp
  then show ?thesis
    by (simp add: scan_spec_def scan_constants(3) first_match_replicate[OF search_zeros[OF assms]])
qed

lemma straddle_chunks:
  "chunks_of READ_CHUNK (replicate 4194299 (CHR 0x00) @ ''SLUS-00594'') =
     [replicate 4194299 (CHR 0x00) @ ''SLUS-'', ''00594'']"
proof -
  have rc: "READ_CHUNK = 4194304" by (simp add: READ_CHUNK_def)
  have 1: "take READ_CHUNK (replicate 4194299 (CHR 0x00) @ ''SLUS-00594'') =
      replicate 4194299 (CHR 0x00) @ ''SLUS-''"
    by (simp add: rc)
  have 2: "drop READ_CHUNK (replicate 4194299 (CHR 0x00) @ ''SLUS-00594'') = ''00594''"
    by (simp add: rc)
  have "chunks_of READ_CHUNK ''00594'' =
      take READ_CHUNK ''00594'' # chunks_of READ_CHUNK (drop READ_CHUNK ''00594'')"
    by (rule chunks_of_step) (simp_all add: scan_constants)
  then have 3: "chunks_of READ_CHUNK ''00594'' = [''00594'']"
    by (simp add: rc chunks_of_Nil)
  have "chunks_of READ_CHUNK (replicate 4194299 (CHR 0x00) @ ''SLUS-00594'') =
      take READ_CHUNK (replicate 4194299 (CHR 0x00) @ ''SLUS-00594'') #
      chunks_of READ_CHUNK (drop READ_CHUNK (replicate 4194299 (CHR 0x00) @ ''SLUS-00594''))"
    by (rule chunks_of_step) (simp_all add: scan_constants)
  then show ?thesis
    by (simp only: 1 2 3)
qed

lemma straddle_None:
  assumes "r = ID_BYTES_RE_ps1 \<or> r = ID_BYTES_RE_ps2"
  shows "scan_spec r (replicate 4194299 (CHR 0x00) @ ''SLUS-00594'') = None"
proof -
  have a: "re_search r ''SLUS-'' = None" using assms by (elim disjE) (simp, code_simp)+
  have b: "re_search r ''00594'' = None" using assms by (elim disjE) (simp, code_simp)+
  have "re_search r (replicate 4194299 (CHR 0x00) @ ''SLUS-'') = None"
    using search_after_zeros[OF assms, of 4194299 "''SLUS-''"] a by simp
  with b show ?thesis
    by (simp add: scan_spec_def straddle_chunks scan_constants(3))
qed

lemma whole_stream_match:
  assumes "r = ID_BYTES_RE_ps1 \<or> r = ID_BYTES_RE_ps2"
  shows "re_search r (replicate n (CHR 0x00) @ ''SLUS-00594'') =
           Some (replicate n (CHR 0x00), ''SLUS-00594'', [])"
proof -
  have "re_search r ''SLUS-00594'' = Some ([], ''SLUS-00594'', [])"
    using assms by (elim disjE) (simp, code_simp)+
  with search_after_zeros[OF assms, of n "''SLUS-00594''"] show ?thesis by simp
qed

lemma findall_after_zeros:
  assumes "r = ID_BYTES_RE_ps1 \<or> r = ID_BYTES_RE_ps2"
  shows "re_findall r (replicate n (CHR 0x00) @ ''SLUS-00594'') = [''SLUS-00594'']"
proof -
  have "re_findall r (replicate n (CHR 0x00) @ ''SLUS-00594'') = re_findall r ''SLUS-00594''"
  proof (rule re_findall_skip)
    fix i assume "i < length (replicate n (CHR 0x00))"
    then obtain d where "n - i = Suc d" by (cases "n - i") simp_all
    then have "drop i (replicate n (CHR 0x00)) @ ''SLUS-00594'' =
        CHR 0x00 # (replicate d (CHR 0x00) @ ''SLUS-00594'')"
      by simp
    with assms show "match_at r (drop i (replicate n (CHR 0x00)) @ ''SLUS-00594'') = None"
      by (auto simp: no_match_at_zero)
  qed
  moreover have "re_findall r ''SLUS-00594'' = [''SLUS-00594'']"
    using assms by (elim disjE) (simp, code_simp)+
  ultimately show ?thesis by simp
qed

section \<open>Facts about cue synthesis\<close>

lemma clear_wayD: "clear_way w p \<Longrightarrow> 1 \<le> n \<Longrightarrow> n \<le> length p \<Longrightarrow> \<not> is_file w (take n p)"
proof -
  assume c: "clear_way w p" and n: "1 \<le> n" "n \<le> length p"
  show "\<not> is_file w (take n p)"
  proof (cases "n = length p")
    case True
    with c show ?thesis by (simp add: clear_way_def)
  next
    case False
    with n have "n \<in> set [1..<length p]" by simp
    with c show ?thesis by (auto simp: clear_way_def file_on_the_way_def list_ex_iff)
  qed
qed

lemma write_under:
  assumes "ready w dest" and "\<not> is_dir w (dest @ [x])"
  shows "write_text (dest @ [x]) t w = (Inr (), w\<lparr>files := AList.update (dest @ [x]) t (files w)\<rparr>)"
proof -
  from assms(1) have d: "is_dir w dest" and c: "clear_way w dest" by (simp_all add: ready_def)
  have "\<not> is_file w (take n (dest @ [x]))" if "n \<in> set [1..<length (dest @ [x])]" for n
  proof -
    from that have n: "1 \<le> n" "n \<le> length dest" by auto
    then have "take n (dest @ [x]) = take n dest" by simp
    with clear_wayD[OF c n] show ?thesis by simp
  qed
  then have "\<not> file_on_the_way w (dest @ [x])"
    unfolding file_on_the_way_def list_ex_iff by blast
  with assms(2) d show ?thesis
    by (simp add: write_text_def write_error_def)
qed

lemma is_file_update:
  "is_file (w\<lparr>files := AList.update p t (files w)\<rparr>) q \<longleftrightarrow> q = p \<or> is_file w q"
  by (simp add: is_file_def update_conv')

lemma is_dir_files_update [simp]: "is_dir (w\<lparr>files := fs\<rparr>) q = is_dir w q"
  by (simp add: is_dir_def)

lemma ready_update:
  assumes "ready w dest"
  shows "ready (w\<lparr>files := AList.update (dest @ [x]) t (files w)\<rparr>) dest"
proof -
  from assms have d: "is_dir w dest" and c: "clear_way w dest" by (simp_all add: ready_def)
  have ne: "take n dest \<noteq> dest @ [x]" for n
  proof
    assume "take n dest = dest @ [x]"
    then have "length (take n dest) = length (dest @ [x])" by (rule arg_cong)
    then show False by simp
  qed
  from ne[of "length dest"] have "dest \<noteq> dest @ [x]" by simp
  with ne have "clear_way (w\<lparr>files := AList.update (dest @ [x]) t (files w)\<rparr>) dest"
    using c by (simp add: clear_way_def file_on_the_way_def list_ex_iff is_file_update)
  with d show ?thesis by (simp add: ready_def)
qed

lemma ready_print [simp]: "ready (print_line msg w) dest = ready w dest"
  by (simp add: ready_def clear_way_def file_on_the_way_def is_dir_def is_file_def print_line_def)

lemma is_file_print [simp]: "is_file (print_line msg w) p = is_file w p"
  by (simp add: is_file_def print_line_def)

lemma is_dir_print [simp]: "is_dir (print_line msg w) p = is_dir w p"
  by (simp add: is_dir_def print_line_def)

lemma copy2_under:
  assumes "ready w dest" and "is_file w b" and "b \<noteq> dest @ [x]" and "\<not> is_dir w (dest @ [x])"
  shows "\<exists>content. copy2 b (dest @ [x]) w
           = (Inr (), w\<lparr>files := AList.update (dest @ [x]) content (files w)\<rparr>)"
proof -
  from assms(2) obtain content where "map_of (files w) b = Some content"
    by (auto simp: is_file_def)
  with assms(3,4) write_under[OF assms(1,4)] show ?thesis
    by (auto simp: copy2_def Let_def)
qed

lemma mkdir_ready:
  assumes "clear_way w dest"
  shows "\<exists>ds. mkdir_parents dest w = (Inr (), w\<lparr>dirs := dirs w @ ds\<rparr>)
           \<and> ready (w\<lparr>dirs := dirs w @ ds\<rparr>) dest
           \<and> (\<forall>q\<in>set ds. length q \<le> length dest)"
proof -
  let ?ds = "filter (\<lambda>q. q \<notin> set (dirs w)) (map (\<lambda>n. take n dest) [1..<Suc (length dest)])"
  let ?w = "w\<lparr>dirs := dirs w @ ?ds\<rparr>"
  from assms have 1: "mkdir_parents dest w = (Inr (), ?w)"
    by (simp add: mkdir_parents_def clear_way_def)
  have "is_dir ?w dest"
  proof (cases "dest = [] \<or> dest \<in> set (dirs w)")
    case True
    then show ?thesis by (auto simp: is_dir_def)
  next
    case False
    then have "length dest \<in> set [1..<Suc (length dest)]" by (cases dest) simp_all
    then have "take (length dest) dest \<in> (\<lambda>n. take n dest) ` set [1..<Suc (length dest)]"
      by (rule imageI)
    then have "dest \<in> set (map (\<lambda>n. take n dest) [1..<Suc (length dest)])"
      by (simp only: set_map take_all order_refl)
    with False show ?thesis by (simp add: is_dir_def del: upt_Suc)
  qed
  moreover have "clear_way ?w dest"
    using assms by (simp add: clear_way_def file_on_the_way_def is_file_def)
  moreover have "\<forall>q\<in>set ?ds. length q \<le> length dest" by auto
  ultimately have "mkdir_parents dest w = (Inr (), w\<lparr>dirs := dirs w @ ?ds\<rparr>)
      \<and> ready (w\<lparr>dirs := dirs w @ ?ds\<rparr>) dest \<and> (\<forall>q\<in>set ?ds. length q \<le> length dest)"
    using 1 unfolding ready_def by blast
  then show ?thesis by (rule exI)
qed

lemma cue_loop_ok:
  assumes "ready w dest"
    and "\<forall>b\<in>set bins. is_file w b \<and> b \<noteq> dest @ [path_name b] \<and> \<not> is_dir w (dest @ [path_name b])"
  shows "\<exists>w'. cue_loop dest bins (Suc n) lines w =
           (Inr (lines @ concat (map (\<lambda>(i, b). [file_line (path_name b), track_line (Suc i), index_line])
                                    (enumerate n bins))), w')
         \<and> ready w' dest \<and> dirs w' = dirs w"
  using assms
proof (induction bins arbitrary: n lines w)
  case Nil
  then show ?case by simp
next
  case (Cons b bins)
  let ?t = "dest @ [path_name b]"
  from Cons.prems have b: "is_file w b" "b \<noteq> ?t" "\<not> is_dir w ?t" by simp_all
  from copy2_under[OF Cons.prems(1) b] obtain content
    where c: "copy2 b ?t w = (Inr (), w\<lparr>files := AList.update ?t content (files w)\<rparr>)"
    by blast
  let ?w = "w\<lparr>files := AList.update ?t content (files w)\<rparr>"
  have r: "ready ?w dest" using Cons.prems(1) by (rule ready_update)
  have "\<forall>b\<in>set bins. is_file ?w b \<and> b \<noteq> dest @ [path_name b] \<and> \<not> is_dir ?w (dest @ [path_name b])"
    using Cons.prems(2) by (simp add: is_file_update)
  from Cons.IH[OF r this, of "Suc n"
      "lines @ [file_line (path_name b), track_line (Suc n), index_line]"]
  obtain w' where
    "cue_loop dest bins (Suc (Suc n)) (lines @ [file_line (path_name b), track_line (Suc n), index_line]) ?w =
       (Inr ((lines @ [file_line (path_name b), track_line (Suc n), index_line]) @
             concat (map (\<lambda>(i, b). [file_line (path_name b), track_line (Suc i), index_line])
                         (enumerate (Suc n) bins))), w')"
    and "ready w' dest" and "dirs w' = dirs ?w"
    by blast
  then show ?case
    by (simp add: c Let_def track_line_def)
qed

lemma fmt02d_1: "fmt02d (Suc 0) = ''01''"
  by (simp add: fmt02d_def dec.simps digits_def)

lemma render_track_lines:
  "render_track (track_of (i, b)) = concat [file_line (path_name b), track_line (Suc i), index_line]"
  by (simp add: track_of_def render_track_def file_line_def track_line_def index_line_def)

lemma loop_lines_render:
  "concat (concat (map (\<lambda>(i, b). [file_line (path_name b), track_line (Suc i), index_line]) ps))
     = concat (map render_track (map track_of ps))"
proof (induction ps)
  case Nil
  then show ?case by simp
next
  case (Cons p ps)
  obtain i b where p: "p = (i, b)" by (cases p)
  show ?case
    using Cons.IH render_track_lines[of i b] by (simp add: p)
qed

lemma cue_tracks_track_of: "cue_tracks bins = map track_of (enumerate 0 bins)"
  by (simp add: cue_tracks_def track_of_def)

lemma digit_value_digits: "k < 10 \<Longrightarrow> digit_value (digits ! k) = k"
proof -
  have "list_all (\<lambda>k. digit_value (digits ! k) = k) [0..<10]"
    by code_simp
  then show "k < 10 \<Longrightarrow> digit_value (digits ! k) = k"
    by (simp add: list_all_iff)
qed

lemma dec_value_snoc: "dec_value (s @ [c]) = 10 * dec_value s + digit_value c"
  by (simp add: dec_value_def)

lemma dec_value_dec: "dec_value (dec n) = n"
proof (induction n rule: dec.induct)
  case (1 n)
  show ?case
  proof (cases "n < 10")
    case True
    then show ?thesis
      by (subst dec.simps) (simp add: dec_value_def digit_value_digits)
  next
    case False
    with "1.IH" have "dec_value (dec (n div 10)) = n div 10" by simp
    moreover have "dec n = dec (n div 10) @ [digits ! (n mod 10)]"
      using False by (subst dec.simps) simp
    ultimately show ?thesis
      by (simp add: dec_value_snoc digit_value_digits)
  qed
qed

lemma digits_nth_digit: "k < 10 \<Longrightarrow> is_digit (digits ! k)"
proof -
  have "list_all (\<lambda>k. is_digit (digits ! k)) [0..<10]"
    by code_simp
  then show "k < 10 \<Longrightarrow> is_digit (digits ! k)"
    by (simp add: list_all_iff)
qed

lemma dec_digits: "list_all is_digit (dec n) \<and> dec n \<noteq> []"
proof (induction n rule: dec.induct)
  case (1 n)
  show ?case
  proof (cases "n < 10")
    case True
    then show ?thesis by (subst dec.simps, subst (2) dec.simps) (simp add: digits_nth_digit)
  next
    case False
    with "1.IH" have "list_all is_digit (dec (n div 10))" by simp
    moreover have "dec n = dec (n div 10) @ [digits ! (n mod 10)]"
      using False by (subst dec.simps) simp
    ultimately show ?thesis by (simp add: digits_nth_digit)
  qed
qed

lemma fmt02d_pins:
  "dec_value (fmt02d n) = n" "list_all is_digit (fmt02d n)" "2 \<le> length (fmt02d n)"
proof -
  have z: "digit_value CHR ''0'' = 0" by (simp add: digit_value_def digits_def)
  have "dec_value (CHR ''0'' # s) = dec_value s" for s
    by (simp add: dec_value_def z)
  then show "dec_value (fmt02d n) = n" by (simp add: fmt02d_def dec_value_dec)
  show "list_all is_digit (fmt02d n)"
    using dec_digits[of n] by (simp add: fmt02d_def is_digit_def digits_def)
  show "2 \<le> length (fmt02d n)"
  proof (cases "n < 10")
    case True
    then show ?thesis using dec_digits[of n] by (cases "dec n") (simp_all add: fmt02d_def)
  next
    case False
    have "dec n = dec (n div 10) @ [digits ! (n mod 10)]"
      using False by (subst dec.simps) simp
    with False dec_digits[of "n div 10"] show ?thesis
      by (cases "dec (n div 10)") (simp_all add: fmt02d_def)
  qed
qed

lemma cue_tracks_props:
  "map number (cue_tracks bins) = [1..<Suc (length bins)]"
  "map file_name (cue_tracks bins) = map path_name bins"
  "map mode (cue_tracks bins) = (case bins of [] \<Rightarrow> [] | _ # bs \<Rightarrow> Data # replicate (length bs) Audio)"
  "map index01 (cue_tracks bins) = replicate (length bins) ''00:00:00''"
proof -
  have n: "map (number \<circ> track_of) (enumerate k bs) = [Suc k..<Suc (k + length bs)]"
    for k and bs :: "path list"
    by (induction bs arbitrary: k) (simp_all add: track_of_def upt_conv_Cons del: upt_Suc)
  show "map number (cue_tracks bins) = [1..<Suc (length bins)]"
    using n[of 0 bins] by (simp add: cue_tracks_track_of del: upt_Suc)
  have f: "map (file_name \<circ> track_of) (enumerate k bs) = map path_name bs"
    for k and bs :: "path list"
    by (induction bs arbitrary: k) (simp_all add: track_of_def)
  show "map file_name (cue_tracks bins) = map path_name bins"
    using f[of 0 bins] by (simp add: cue_tracks_track_of)
  have a: "map (mode \<circ> track_of) (enumerate (Suc k) bs) = replicate (length bs) Audio"
    for k and bs :: "path list"
    by (induction bs arbitrary: k) (simp_all add: track_of_def)
  show "map mode (cue_tracks bins) = (case bins of [] \<Rightarrow> [] | _ # bs \<Rightarrow> Data # replicate (length bs) Audio)"
    using a[of 0] by (cases bins) (simp_all add: cue_tracks_track_of track_of_def)
  have i: "map (index01 \<circ> track_of) (enumerate k bs) = replicate (length bs) ''00:00:00''"
    for k and bs :: "path list"
    by (induction bs arbitrary: k) (simp_all add: track_of_def)
  show "map index01 (cue_tracks bins) = replicate (length bins) ''00:00:00''"
    using i[of 0 bins] by (simp add: cue_tracks_track_of)
qed

lemma find_with_depth_Nil:
  "find_with_depth w root ext max_depth = [] \<longleftrightarrow>
     (\<forall>p\<in>set (entries w). below root max_depth p \<longrightarrow> \<not> ends_with ext (path_name p))"
proof -
  have "sort xs = [] \<longleftrightarrow> xs = []" for xs :: "path list"
    by (metis length_0_conv length_sort)
  then show ?thesis
    by (auto simp: find_with_depth_def filter_empty_conv)
qed

lemma synthesize_not_None:
  "fst (case synthesize_cue bins d base w of
          (Inl e, w'') \<Rightarrow> (Inl e, w'')
        | (Inr cue, w'') \<Rightarrow> (Inr (Some cue), w'')) \<noteq> Inr None"
  by (cases "synthesize_cue bins d base w") (auto split: sum.splits)

lemma ends_with_iff: "(\<forall>stem. name \<noteq> stem @ ext) \<longleftrightarrow> \<not> ends_with ext name"
proof
  assume a: "\<forall>stem. name \<noteq> stem @ ext"
  show "\<not> ends_with ext name"
  proof
    assume "ends_with ext name"
    then have "drop (length name - length ext) name = ext" by (simp add: ends_with_def)
    then have "name = take (length name - length ext) name @ ext"
      using append_take_drop_id[of "length name - length ext" name] by simp
    with a show False by blast
  qed
next
  assume n: "\<not> ends_with ext name"
  show "\<forall>stem. name \<noteq> stem @ ext"
  proof (intro allI notI)
    fix stem
    assume "name = stem @ ext"
    then have "ends_with ext name" by (simp add: ends_with_def)
    with n show False by simp
  qed
qed

lemma locate_skip_iff:
  "(\<forall>p\<in>set (entries w). below game_dir 2 p \<longrightarrow>
        \<not> ends_with ''.cue'' (path_name p) \<and> \<not> ends_with ''.bin'' (path_name p))
   \<longleftrightarrow> locate_or_build_cue game_dir base tmp_root tmp_names w
         = (Inr None, w\<lparr>log := log w @ [''    No CUE or BIN files found; skipping'']\<rparr>)"
proof -
  show ?thesis
  proof (cases "find_with_depth w game_dir ''.cue'' 2")
    case (Cons cue cues)
    then have "\<not> (\<forall>p\<in>set (entries w). below game_dir 2 p \<longrightarrow> \<not> ends_with ''.cue'' (path_name p))"
      using find_with_depth_Nil[of w game_dir "''.cue''" 2] by simp
    then show "(\<forall>p\<in>set (entries w). below game_dir 2 p \<longrightarrow>
        \<not> ends_with ''.cue'' (path_name p) \<and> \<not> ends_with ''.bin'' (path_name p))
      \<longleftrightarrow> locate_or_build_cue game_dir base tmp_root tmp_names w
         = (Inr None, w\<lparr>log := log w @ [''    No CUE or BIN files found; skipping'']\<rparr>)"
      using Cons by (auto simp: locate_or_build_cue_def)
  next
    case Nil
    note cues = Nil
    then have c: "\<forall>p\<in>set (entries w). below game_dir 2 p \<longrightarrow> \<not> ends_with ''.cue'' (path_name p)"
      using find_with_depth_Nil[of w game_dir "''.cue''" 2] by simp
    show "(\<forall>p\<in>set (entries w). below game_dir 2 p \<longrightarrow>
        \<not> ends_with ''.cue'' (path_name p) \<and> \<not> ends_with ''.bin'' (path_name p))
      \<longleftrightarrow> locate_or_build_cue game_dir base tmp_root tmp_names w
         = (Inr None, w\<lparr>log := log w @ [''    No CUE or BIN files found; skipping'']\<rparr>)"
    proof (cases "find_with_depth w game_dir ''.bin'' 2")
      case Nil
      then have "\<forall>p\<in>set (entries w). below game_dir 2 p \<longrightarrow> \<not> ends_with ''.bin'' (path_name p)"
        using find_with_depth_Nil[of w game_dir "''.bin''" 2] by simp
      with c show ?thesis
        using cues Nil by (auto simp: locate_or_build_cue_def print_line_def)
    next
      case (Cons bin bins)
      then have n: "\<not> (\<forall>p\<in>set (entries w). below game_dir 2 p \<longrightarrow> \<not> ends_with ''.bin'' (path_name p))"
        using find_with_depth_Nil[of w game_dir "''.bin''" 2] by simp
      have "fst (locate_or_build_cue game_dir base tmp_root tmp_names w) \<noteq> Inr None"
      proof (cases "mkdtemp tmp_root tmp_names w")
        case (Pair r w')
        show ?thesis
        proof (cases r)
          case (Inl e)
          with Pair cues Cons show ?thesis by (simp add: locate_or_build_cue_def)
        next
          case (Inr d)
          with Pair cues Cons synthesize_not_None[of "bin # bins" d base w'] show ?thesis
            by (simp add: locate_or_build_cue_def)
        qed
      qed
      then have "locate_or_build_cue game_dir base tmp_root tmp_names w
          \<noteq> (Inr None, w\<lparr>log := log w @ [''    No CUE or BIN files found; skipping'']\<rparr>)"
        by auto
      with n show ?thesis by blast
    qed
  qed
qed

section \<open>Claims\<close>

text \<open>
  C1.  For every raw code token, \<open>normalize_code\<close> replaces every underscore by a hyphen,
  deletes every dot and uppercases the result, and pads nothing.  Uppercasing maps the
  lower-case alphabet onto the upper-case one, letter by letter, and leaves every other
  character alone; no lower-case letter is left in the result, which is as long as the
  token without its dots and contains neither an underscore nor a dot.  In particular
  \<open>SLUS_005.94\<close> becomes \<open>SLUS-00594\<close>, \<open>SLES_509.50\<close> becomes \<open>SLES-50950\<close>, \<open>SCUS-94900\<close>
  stays as it is, and \<open>slus_005.94\<close> becomes \<open>SLUS-00594\<close> too.
\<close>

theorem C1_normalize_code:
  "normalize_code raw = normalize_spec raw
   \<and> str_upper lowers = uppers
   \<and> str_upper (filter (\<lambda>c. c \<notin> set lowers) s) = filter (\<lambda>c. c \<notin> set lowers) s
   \<and> list_all (\<lambda>c. c \<notin> set lowers) (normalize_code raw)
   \<and> length (normalize_code raw) = length (filter (\<lambda>c. c \<noteq> CHR ''.'') raw)
   \<and> CHR ''_'' \<notin> set (normalize_code raw)
   \<and> CHR ''.'' \<notin> set (normalize_code raw)
   \<and> normalize_code ''SLUS_005.94'' = ''SLUS-00594''
   \<and> normalize_code ''SLES_509.50'' = ''SLES-50950''
   \<and> normalize_code ''SCUS-94900'' = ''SCUS-94900''
   \<and> normalize_code ''slus_005.94'' = ''SLUS-00594''
   \<and> normalize_code ''Sles_509.50'' = ''SLES-50950''"
proof -
  have fix_us: "char_upper c = CHR ''_'' \<longleftrightarrow> c = CHR ''_''" for c
    by (auto simp: char_upper_def lowers_def uppers_def split: option.splits if_splits)
  have fix_dot: "char_upper c = CHR ''.'' \<longleftrightarrow> c = CHR ''.''" for c
    by (auto simp: char_upper_def lowers_def uppers_def split: option.splits if_splits)
  have ex: "normalize_spec ''SLUS_005.94'' = ''SLUS-00594''"
    "normalize_spec ''SLES_509.50'' = ''SLES-50950''"
    "normalize_spec ''SCUS-94900'' = ''SCUS-94900''"
    "normalize_spec ''slus_005.94'' = ''SLUS-00594''"
    "normalize_spec ''Sles_509.50'' = ''SLES-50950''"
    by (simp_all add: normalize_spec_def char_upper_def lowers_def uppers_def)
  have len: "length (normalize_spec raw) = length (filter (\<lambda>c. c \<noteq> CHR ''.'') raw)"
    by (induction raw) (simp_all add: normalize_spec_def)
  have no_us: "CHR ''_'' \<notin> set (normalize_spec raw)"
    by (auto simp: normalize_spec_def fix_us dest: sym)
  have no_dot: "CHR ''.'' \<notin> set (normalize_spec raw)"
    by (auto simp: normalize_spec_def fix_dot dest: sym)
  have no_lower: "list_all (\<lambda>c. c \<notin> set lowers) (normalize_spec raw)"
    by (simp add: normalize_spec_def list_all_iff char_upper_not_lower)
  have up: "str_upper lowers = uppers"
    "str_upper (filter (\<lambda>c. c \<notin> set lowers) s) = filter (\<lambda>c. c \<notin> set lowers) s"
    by (simp_all only: str_upper_def upper_of_lowers upper_keeps_others)
  show ?thesis
    using ex len no_us no_dot no_lower up by (simp add: normalize_code_eq_spec)
qed

text \<open>
  C5 (as amended).  \<open>build_new_stem\<close> of the PS2 tagger and the same two branches of the PS1
  tagger: when the stem has a code, the first match of the grammar is replaced by the given
  code and the text before and after it is kept as it is, further codes included; when the
  stem has none, the canonical code is appended in brackets to the stem without its trailing
  white space, and it is then the only code token of the result.
\<close>

theorem C5_compose_amended:
  "(re_search NAME_CODE_RE_ps2 stem = Some (pre, m, rest) \<longrightarrow>
      stem = pre @ m @ rest \<and>
      (\<forall>i<length pre. match_at NAME_CODE_RE_ps2 (drop i stem) = None) \<and>
      build_new_stem stem code True = pre @ code @ rest)
   \<and> (extract_code_from_name_ps2 stem = None \<and> canonical_code code \<longrightarrow>
      build_new_stem stem code False = str_rstrip stem @ '' ['' @ code @ '']'' \<and>
      re_findall NAME_CODE_RE_ps2 (build_new_stem stem code False) = [code])
   \<and> (re_search NAME_CODE_RE_ps1 stem = Some (pre, m, rest) \<longrightarrow>
      stem = pre @ m @ rest \<and>
      (\<forall>i<length pre. match_at NAME_CODE_RE_ps1 (drop i stem) = None) \<and>
      new_stem_ps1 stem code True = pre @ code @ rest)
   \<and> (extract_code_from_name_ps1 stem = None \<and> canonical_code_ps1 code \<longrightarrow>
      new_stem_ps1 stem code False = str_rstrip stem @ '' ['' @ code @ '']'' \<and>
      re_findall NAME_CODE_RE_ps1 (new_stem_ps1 stem code False) = [code])"
proof -
  have replace: "stem = pre @ m @ rest \<and>
      (\<forall>i<length pre. match_at r (drop i stem) = None) \<and>
      re_sub_first r code stem = pre @ code @ rest"
    if "re_search r stem = Some (pre, m, rest)" for r
    using that re_search_SomeD[OF that] re_search_first[OF that]
    by (simp add: re_sub_first_def)
  have none: "re_search r stem = None" if "extract_code r stem = None" for r
    using that by (simp add: extract_code_def split: option.splits prod.splits)
  have ps2: "re_findall NAME_CODE_RE_ps2 (str_rstrip stem @ '' ['' @ code @ '']'') = [code]"
    if "extract_code_from_name_ps2 stem = None" "canonical_code code"
    using that rejects_ps2
    by (intro search_composed(2) none match_canonical_ps2 canonical_code_nonempty)
      (simp_all add: extract_code_from_name_ps2_def)
  have ps1: "re_findall NAME_CODE_RE_ps1 (str_rstrip stem @ '' ['' @ code @ '']'') = [code]"
    if "extract_code_from_name_ps1 stem = None" "canonical_code_ps1 code"
    using that rejects_ps1
    by (intro search_composed(2) none match_canonical_ps1 canonical_code_nonempty
        canonical_ps1_canonical)
      (simp_all add: extract_code_from_name_ps1_def)
  show ?thesis
    using replace[of NAME_CODE_RE_ps2] replace[of NAME_CODE_RE_ps1] ps1 ps2
    by (simp add: build_new_stem_def new_stem_ps1_def build_new_base_def)
qed

text \<open>The theorem of C5 at concrete stems, for both branches and both taggers.\<close>

theorem C5_compose_witness:
  "build_new_stem ''Game [SLUS_20312]'' ''SLUS-20312'' True = ''Game [SLUS-20312]''
   \<and> build_new_stem ''Game '' ''SLUS-20312'' False = ''Game [SLUS-20312]''
   \<and> re_findall NAME_CODE_RE_ps2 (build_new_stem ''Game '' ''SLUS-20312'' False) = [''SLUS-20312'']
   \<and> new_stem_ps1 ''Game [sles_01816]'' ''SLES-01816'' True = ''Game [SLES-01816]''
   \<and> re_findall NAME_CODE_RE_ps1 (new_stem_ps1 ''Game'' ''SLES-01816'' False) = [''SLES-01816'']"
proof -
  have s2: "re_search NAME_CODE_RE_ps2 ''Game [SLUS_20312]'' = Some (''Game ['', ''SLUS_20312'', '']'')"
    by code_simp
  have s1: "re_search NAME_CODE_RE_ps1 ''Game [sles_01816]'' = Some (''Game ['', ''sles_01816'', '']'')"
    by code_simp
  have n2: "extract_code_from_name_ps2 ''Game '' = None" by code_simp
  have n1: "extract_code_from_name_ps1 ''Game'' = None" by code_simp
  have c2: "canonical_code ''SLUS-20312''" by code_simp
  have k1: "canonical_code_ps1 ''SLES-01816''" by code_simp
  have r: "str_rstrip ''Game '' = ''Game''" by code_simp
  note a = C5_compose_amended[of "''Game [SLUS_20312]''" "''Game [''" "''SLUS_20312''" "'']''"
      "''SLUS-20312''", THEN conjunct1, THEN mp, OF s2, THEN conjunct2, THEN conjunct2]
  note b = C5_compose_amended[of "''Game ''" "[]" "[]" "[]" "''SLUS-20312''",
      THEN conjunct2, THEN conjunct1, THEN mp, OF conjI[OF n2 c2]]
  note c = C5_compose_amended[of "''Game [sles_01816]''" "''Game [''" "''sles_01816''" "'']''"
      "''SLES-01816''", THEN conjunct2, THEN conjunct2, THEN conjunct1, THEN mp, OF s1,
      THEN conjunct2, THEN conjunct2]
  note d = C5_compose_amended[of "''Game''" "[]" "[]" "[]" "''SLES-01816''",
      THEN conjunct2, THEN conjunct2, THEN conjunct2, THEN mp, OF conjI[OF n1 k1],
      THEN conjunct2]
  have b1: "build_new_stem ''Game '' ''SLUS-20312'' False = ''Game [SLUS-20312]''"
    using b[THEN conjunct1] r by simp
  have a1: "build_new_stem ''Game [SLUS_20312]'' ''SLUS-20312'' True = ''Game [SLUS-20312]''"
    using a by simp
  have c1: "new_stem_ps1 ''Game [sles_01816]'' ''SLES-01816'' True = ''Game [SLES-01816]''"
    using c by simp
  show ?thesis
    using a1 b1 b[THEN conjunct2] c1 d by blast
qed

text \<open>
  C5 as stated fails where the stem holds two codes: only the first is replaced, and the
  new stem has two canonical code tokens, not exactly one.
\<close>

theorem C5_compose_counterexample:
  "extract_code_from_name_ps2 ''Demo [SLUS_20312] [SLES-50950]'' = Some ''SLUS_20312''
   \<and> normalize_code ''SLUS_20312'' = ''SLUS-20312''
   \<and> canonical_code ''SLUS-20312''
   \<and> build_new_stem ''Demo [SLUS_20312] [SLES-50950]'' ''SLUS-20312'' True
       = ''Demo [SLUS-20312] [SLES-50950]''
   \<and> filter canonical_code (re_findall NAME_CODE_RE_ps2
         (build_new_stem ''Demo [SLUS_20312] [SLES-50950]'' ''SLUS-20312'' True))
       = [''SLUS-20312'', ''SLES-50950'']"
  by code_simp

text \<open>
  C6.  Round trip: for a stem without a code and a canonical code, the name scan finds that
  very code in the stem that \<open>build_new_stem\<close> produces; normalising it changes nothing,
  and building the stem again from the tagged name, now with a code present, gives the same
  name.
\<close>

theorem C6_round_trip:
  assumes "extract_code_from_name_ps2 stem = None" and "canonical_code code"
  shows "extract_code_from_name_ps2 (build_new_stem stem code False) = Some code
    \<and> normalize_code code = code
    \<and> build_new_stem (build_new_stem stem code False) code True = build_new_stem stem code False"
proof -
  let ?new = "str_rstrip stem @ '' ['' @ code @ '']''"
  from assms(1) have none: "re_search NAME_CODE_RE_ps2 stem = None"
    by (simp add: extract_code_from_name_ps2_def extract_code_def split: option.splits prod.splits)
  have s: "re_search NAME_CODE_RE_ps2 ?new = Some (str_rstrip stem @ '' ['', code, '']'')"
    using none rejects_ps2 match_canonical_ps2[OF assms(2)] canonical_code_nonempty[OF assms(2)]
    by (intro search_composed(1)) simp_all
  have new: "build_new_stem stem code False = ?new"
    by (simp add: build_new_stem_def)
  have "extract_code_from_name_ps2 ?new = Some code"
    using s by (simp add: extract_code_from_name_ps2_def extract_code_def)
  moreover have "build_new_stem ?new code True = ?new"
    using s by (simp add: build_new_stem_def re_sub_first_def)
  ultimately show ?thesis
    using normalize_canonical[OF assms(2)] by (simp add: new)
qed

text \<open>The round trip of C6 at the stem \<open>Game\<close> and the code \<open>SLUS-00001\<close>.\<close>

theorem C6_round_trip_witness:
  "extract_code_from_name_ps2 ''Game'' = None \<and> canonical_code ''SLUS-00001''
   \<and> build_new_stem ''Game'' ''SLUS-00001'' False = ''Game [SLUS-00001]''
   \<and> extract_code_from_name_ps2 ''Game [SLUS-00001]'' = Some ''SLUS-00001''
   \<and> build_new_stem ''Game [SLUS-00001]'' ''SLUS-00001'' True = ''Game [SLUS-00001]''"
proof -
  have h: "extract_code_from_name_ps2 ''Game'' = None" "canonical_code ''SLUS-00001''"
    by code_simp+
  have b: "build_new_stem ''Game'' ''SLUS-00001'' False = ''Game [SLUS-00001]''"
    by code_simp
  from C6_round_trip[OF h] h b show ?thesis by simp
qed

text \<open>
  C7.  For every byte stream \<open>find_disc_code\<close> (of either tagger) returns the normalised
  first match of the first chunk, among the sixteen 4 MiB chunks within the 64 MiB cap,
  that has a match, and nothing when none of them has one; a stream of 64 MiB of zero bytes
  followed by \<open>SLUS-00594\<close> has a match, past the cap, and the scan returns nothing.
\<close>

theorem C7_find_disc_code:
  "find_disc_code_ps1 content = scan_spec ID_BYTES_RE_ps1 content
   \<and> find_disc_code_ps2 content = scan_spec ID_BYTES_RE_ps2 content
   \<and> MAX_SCAN = 67108864
   \<and> re_search ID_BYTES_RE_ps1 (replicate 67108864 (CHR 0x00) @ ''SLUS-00594'')
       = Some (replicate 67108864 (CHR 0x00), ''SLUS-00594'', [])
   \<and> find_disc_code_ps1 (replicate 67108864 (CHR 0x00) @ ''SLUS-00594'') = None
   \<and> re_search ID_BYTES_RE_ps2 (replicate 67108864 (CHR 0x00) @ ''SLUS-00594'')
       = Some (replicate 67108864 (CHR 0x00), ''SLUS-00594'', [])
   \<and> find_disc_code_ps2 (replicate 67108864 (CHR 0x00) @ ''SLUS-00594'') = None"
proof -
  have 1: "find_disc_code_ps1 c = scan_spec ID_BYTES_RE_ps1 c" for c
    by (simp add: find_disc_code_ps1_def scan_loop_spec)
  have 2: "find_disc_code_ps2 c = scan_spec ID_BYTES_RE_ps2 c" for c
    by (simp add: find_disc_code_ps2_def scan_loop_spec)
  have 3: "MAX_SCAN = 67108864" by (simp add: MAX_SCAN_def)
  show ?thesis
    by (simp only: 1 2 3 past_cap_None whole_stream_match simp_thms)
qed

text \<open>
  C8.  A stream whose only match of the grammar straddles the first 4 MiB chunk boundary:
  4194299 zero bytes followed by \<open>SLUS-00594\<close>.  Searching the whole stream finds the code,
  the chunked scan of either tagger returns nothing.
\<close>

theorem C8_straddling_match_missed:
  "re_search ID_BYTES_RE_ps1 (replicate 4194299 (CHR 0x00) @ ''SLUS-00594'')
       = Some (replicate 4194299 (CHR 0x00), ''SLUS-00594'', [])
   \<and> re_findall ID_BYTES_RE_ps1 (replicate 4194299 (CHR 0x00) @ ''SLUS-00594'') = [''SLUS-00594'']
   \<and> find_disc_code_ps1 (replicate 4194299 (CHR 0x00) @ ''SLUS-00594'') = None
   \<and> re_search ID_BYTES_RE_ps2 (replicate 4194299 (CHR 0x00) @ ''SLUS-00594'')
       = Some (replicate 4194299 (CHR 0x00), ''SLUS-00594'', [])
   \<and> re_findall ID_BYTES_RE_ps2 (replicate 4194299 (CHR 0x00) @ ''SLUS-00594'') = [''SLUS-00594'']
   \<and> find_disc_code_ps2 (replicate 4194299 (CHR 0x00) @ ''SLUS-00594'') = None
   \<and> 4194299 < READ_CHUNK \<and> READ_CHUNK < 4194299 + length ''SLUS-00594''"
proof -
  have 1: "find_disc_code_ps1 c = scan_spec ID_BYTES_RE_ps1 c" for c
    by (simp add: find_disc_code_ps1_def scan_loop_spec)
  have 2: "find_disc_code_ps2 c = scan_spec ID_BYTES_RE_ps2 c" for c
    by (simp add: find_disc_code_ps2_def scan_loop_spec)
  have 3: "4194299 < READ_CHUNK \<and> READ_CHUNK < 4194299 + length ''SLUS-00594''"
    by (simp add: READ_CHUNK_def)
  show ?thesis
    using 3 by (simp only: 1 2 straddle_None whole_stream_match findall_after_zeros simp_thms)
qed

text \<open>
  C3.  When the track set of a disc is empty, no cue is synthesized: \<open>locate_or_build_cue\<close>
  prints that it found no CUE or BIN files and skips the disc, returning no cue and
  leaving every file and directory as it is (no temporary directory, no cue file), exactly
  when nothing below the game directory, at most two levels down, regular file or
  directory, is named \<open>*.cue\<close> or \<open>*.bin\<close>.  With a track and no cue sheet the result is never
  this skip.
\<close>

theorem C3_empty_track_set:
  "(\<forall>p\<in>fst ` set (files w) \<union> set (dirs w).
        length game_dir < length p \<and> take (length game_dir) p = game_dir
          \<and> length p \<le> length game_dir + 2 \<longrightarrow>
        (\<forall>stem. last p \<noteq> stem @ ''.cue'') \<and> (\<forall>stem. last p \<noteq> stem @ ''.bin''))
   \<longleftrightarrow> locate_or_build_cue game_dir base tmp_root tmp_names w
         = (Inr None, w\<lparr>log := log w @ [''    No CUE or BIN files found; skipping'']\<rparr>)"
proof -
  have e: "fst ` set (files w) \<union> set (dirs w) = set (entries w)"
    by (simp add: entries_def)
  have b: "length game_dir < length p \<and> take (length game_dir) p = game_dir
          \<and> length p \<le> length game_dir + 2 \<longleftrightarrow> below game_dir 2 p" for p
    by (auto simp: below_def)
  have n: "below game_dir 2 p \<Longrightarrow> path_name p = last p" for p
    by (auto simp: below_def path_name_def)
  have "(\<forall>p\<in>fst ` set (files w) \<union> set (dirs w).
        length game_dir < length p \<and> take (length game_dir) p = game_dir
          \<and> length p \<le> length game_dir + 2 \<longrightarrow>
        (\<forall>stem. last p \<noteq> stem @ ''.cue'') \<and> (\<forall>stem. last p \<noteq> stem @ ''.bin''))
    \<longleftrightarrow> (\<forall>p\<in>set (entries w). below game_dir 2 p \<longrightarrow>
        \<not> ends_with ''.cue'' (path_name p) \<and> \<not> ends_with ''.bin'' (path_name p))"
    unfolding e b ends_with_iff using n by auto
  then show ?thesis
    by (simp only: locate_skip_iff)
qed

text \<open>
  The theorem of C3 at a directory that holds one text file and, three levels down, a
  track file, beside a directory with a cue sheet; at one that holds a track file; and at
  one that holds a directory named like a track file.
\<close>

theorem C3_empty_track_set_witness:
  "locate_or_build_cue [''g''] ''Game'' [''tmp''] [''x'']
     \<lparr>files = [([''g'', ''readme.txt''], ''x''), ([''g'', ''a'', ''b'', ''deep.bin''], ''y''),
               ([''h'', ''other.cue''], ''z'')],
      dirs = [[''g''], [''tmp''], [''g'', ''a''], [''g'', ''a'', ''b''], [''h'']], log = []\<rparr>
   = (Inr None, \<lparr>files = [([''g'', ''readme.txt''], ''x''), ([''g'', ''a'', ''b'', ''deep.bin''], ''y''),
               ([''h'', ''other.cue''], ''z'')],
      dirs = [[''g''], [''tmp''], [''g'', ''a''], [''g'', ''a'', ''b''], [''h'']],
                 log = [''    No CUE or BIN files found; skipping'']\<rparr>)
   \<and> locate_or_build_cue [''g''] ''Game'' [''tmp''] [''x'']
     \<lparr>files = [([''g'', ''track.bin''], ''x'')], dirs = [[''g''], [''tmp'']], log = []\<rparr>
   \<noteq> (Inr None, \<lparr>files = [([''g'', ''track.bin''], ''x'')], dirs = [[''g''], [''tmp'']],
                 log = [''    No CUE or BIN files found; skipping'']\<rparr>)
   \<and> locate_or_build_cue [''g''] ''Game'' [''tmp''] [''x'']
     \<lparr>files = [], dirs = [[''g''], [''tmp''], [''g'', ''old.bin'']], log = []\<rparr>
   \<noteq> (Inr None, \<lparr>files = [], dirs = [[''g''], [''tmp''], [''g'', ''old.bin'']],
                 log = [''    No CUE or BIN files found; skipping'']\<rparr>)"
proof -
  let ?w = "\<lparr>files = [([''g'', ''readme.txt''], ''x''), ([''g'', ''a'', ''b'', ''deep.bin''], ''y''),
               ([''h'', ''other.cue''], ''z'')],
      dirs = [[''g''], [''tmp''], [''g'', ''a''], [''g'', ''a'', ''b''], [''h'']], log = []\<rparr>"
  let ?v = "\<lparr>files = [([''g'', ''track.bin''], ''x'')], dirs = [[''g''], [''tmp'']], log = []\<rparr>"
  let ?u = "\<lparr>files = [], dirs = [[''g''], [''tmp''], [''g'', ''old.bin'']], log = []\<rparr>"
  have 1: "\<forall>p\<in>fst ` set (files ?w) \<union> set (dirs ?w).
      length [''g''] < length p \<and> take (length [''g'']) p = [''g''] \<and> length p \<le> length [''g''] + 2 \<longrightarrow>
      (\<forall>stem. last p \<noteq> stem @ ''.cue'') \<and> (\<forall>stem. last p \<noteq> stem @ ''.bin'')"
    by (simp add: ends_with_iff ends_with_def)
  have 2: "\<not> (\<forall>p\<in>fst ` set (files ?v) \<union> set (dirs ?v).
      length [''g''] < length p \<and> take (length [''g'']) p = [''g''] \<and> length p \<le> length [''g''] + 2 \<longrightarrow>
      (\<forall>stem. last p \<noteq> stem @ ''.cue'') \<and> (\<forall>stem. last p \<noteq> stem @ ''.bin''))"
    by (simp add: ends_with_iff ends_with_def)
  have 3: "\<not> (\<forall>p\<in>fst ` set (files ?u) \<union> set (dirs ?u).
      length [''g''] < length p \<and> take (length [''g'']) p = [''g''] \<and> length p \<le> length [''g''] + 2 \<longrightarrow>
      (\<forall>stem. last p \<noteq> stem @ ''.cue'') \<and> (\<forall>stem. last p \<noteq> stem @ ''.bin''))"
    by (simp add: ends_with_iff ends_with_def)
  from C3_empty_track_set[of ?w "[''g'']" "''Game''" "[''tmp'']" "[''x'']"] 1
  have a: "locate_or_build_cue [''g''] ''Game'' [''tmp''] [''x''] ?w
      = (Inr None, ?w\<lparr>log := log ?w @ [''    No CUE or BIN files found; skipping'']\<rparr>)"
    by blast
  from C3_empty_track_set[of ?v "[''g'']" "''Game''" "[''tmp'']" "[''x'']"] 2
  have b: "locate_or_build_cue [''g''] ''Game'' [''tmp''] [''x''] ?v
      \<noteq> (Inr None, ?v\<lparr>log := log ?v @ [''    No CUE or BIN files found; skipping'']\<rparr>)"
    by blast
  from C3_empty_track_set[of ?u "[''g'']" "''Game''" "[''tmp'']" "[''x'']"] 3
  have c: "locate_or_build_cue [''g''] ''Game'' [''tmp''] [''x''] ?u
      \<noteq> (Inr None, ?u\<lparr>log := log ?u @ [''    No CUE or BIN files found; skipping'']\<rparr>)"
    by blast
  from a b c show ?thesis by simp
qed

text \<open>
  C4.  For every non-empty list of track files, in the order given (the caller sorts it),
  with nothing in the way of the destination directory, \<open>synthesize_cue\<close> succeeds and the
  cue file it writes is, track after track in that order, the line naming the file, the
  line \<open>TRACK nn\<close> with the mode, \<open>MODE2/2352\<close> for the first track and \<open>AUDIO\<close> for the
  others, and the line \<open>INDEX 01 00:00:00\<close>.  The track number \<open>nn\<close> of the \<open>i\<close>-th track is
  the decimal text of \<open>i\<close>, counted from 1, of two digits at least.  This is the text of
  the descriptors \<open>cue_tracks bins\<close> of the specification; a single track gives exactly one
  data descriptor.
\<close>

theorem C4_synthesize_cue:
  assumes "bins \<noteq> []" and "clear_way w dest_dir"
    and "\<forall>b\<in>set bins. is_file w b \<and> b \<noteq> dest_dir @ [path_name b]
           \<and> \<not> is_dir w (dest_dir @ [path_name b])"
    and "\<not> is_dir w (dest_dir @ [base_name @ ''.cue''])"
  shows "fst (synthesize_cue bins dest_dir base_name w) = Inr (dest_dir @ [base_name @ ''.cue''])
    \<and> map_of (files (snd (synthesize_cue bins dest_dir base_name w)))
          (dest_dir @ [base_name @ ''.cue''])
        = Some (concat (map (\<lambda>(i, b).
            ''FILE '' @ [CHR 0x22] @ path_name b @ [CHR 0x22] @ '' BINARY'' @ [CHR 0x0A] @
            ''  TRACK '' @ fmt02d (Suc i) @ (if i = 0 then '' MODE2/2352'' else '' AUDIO'') @ [CHR 0x0A] @
            ''    INDEX 01 00:00:00'' @ [CHR 0x0A]) (enumerate 0 bins)))
    \<and> dec_value (fmt02d n) = n \<and> list_all is_digit (fmt02d n) \<and> 2 \<le> length (fmt02d n)
    \<and> concat (map render_track (cue_tracks bins))
        = concat (map (\<lambda>(i, b).
            ''FILE '' @ [CHR 0x22] @ path_name b @ [CHR 0x22] @ '' BINARY'' @ [CHR 0x0A] @
            ''  TRACK '' @ fmt02d (Suc i) @ (if i = 0 then '' MODE2/2352'' else '' AUDIO'') @ [CHR 0x0A] @
            ''    INDEX 01 00:00:00'' @ [CHR 0x0A]) (enumerate 0 bins))
    \<and> map number (cue_tracks bins) = [1..<Suc (length bins)]
    \<and> map file_name (cue_tracks bins) = map path_name bins
    \<and> map mode (cue_tracks bins) = Data # replicate (length bins - 1) Audio
    \<and> map index01 (cue_tracks bins) = replicate (length bins) ''00:00:00''"
proof -
  let ?cue = "dest_dir @ [base_name @ ''.cue'']"
  let ?block = "\<lambda>(i, b).
      ''FILE '' @ [CHR 0x22] @ path_name b @ [CHR 0x22] @ '' BINARY'' @ [CHR 0x0A] @
      ''  TRACK '' @ fmt02d (Suc i) @ (if i = 0 then '' MODE2/2352'' else '' AUDIO'') @ [CHR 0x0A] @
      ''    INDEX 01 00:00:00'' @ [CHR 0x0A]"
  let ?text = "concat (map ?block (enumerate 0 bins))"
  have blk: "render_track (track_of p) = ?block p" for p :: "nat \<times> path"
    by (cases p) (simp add: track_of_def render_track_def)
  have rt: "concat (map render_track (cue_tracks bins)) = ?text"
    by (simp add: cue_tracks_track_of comp_def blk)
  from mkdir_ready[OF assms(2)] obtain ds where
    mk: "mkdir_parents dest_dir w = (Inr (), w\<lparr>dirs := dirs w @ ds\<rparr>)"
    and r0: "ready (w\<lparr>dirs := dirs w @ ds\<rparr>) dest_dir"
    and ds: "\<forall>q\<in>set ds. length q \<le> length dest_dir"
    by blast
  let ?w0 = "w\<lparr>dirs := dirs w @ ds\<rparr>"
  have nd: "\<not> is_dir ?w0 (dest_dir @ [x])" if "\<not> is_dir w (dest_dir @ [x])" for x
    using that ds by (auto simp: is_dir_def)
  have f0: "is_file ?w0 p = is_file w p" for p by (simp add: is_file_def)
  have pre: "\<forall>b\<in>set bins. is_file ?w0 b \<and> b \<noteq> dest_dir @ [path_name b]
             \<and> \<not> is_dir ?w0 (dest_dir @ [path_name b])"
    using assms(3) nd by (simp add: f0)
  have lines: "\<exists>w1. (if length bins = 1 then
                  (let bin_base = path_name (bins ! 0) in
                   case copy2 (bins ! 0) (dest_dir @ [bin_base]) ?w0 of
                     (Inl e, w1) \<Rightarrow> (Inl e, w1)
                   | (Inr _, w1) \<Rightarrow>
                       (Inr [file_line bin_base, ''  TRACK 01 MODE2/2352'' @ [CHR 0x0A], index_line],
                        w1))
                else
                  cue_loop dest_dir bins 1 []
                    (print_line (''    Synthesizing CUE for '' @ dec (length bins) @
                       '' BINs (track1 data, rest audio; order = sorted filenames)'') ?w0))
           = (Inr (concat (map (\<lambda>(i, b). [file_line (path_name b), track_line (Suc i), index_line])
                               (enumerate 0 bins))), w1)
           \<and> ready w1 dest_dir \<and> dirs w1 = dirs ?w0"
  proof (cases "length bins = 1")
    case True
    then obtain b where b: "bins = [b]" by (cases bins) auto
    with pre have "is_file ?w0 b" "b \<noteq> dest_dir @ [path_name b]"
      "\<not> is_dir ?w0 (dest_dir @ [path_name b])" by simp_all
    from copy2_under[OF r0 this] obtain content
      where c: "copy2 b (dest_dir @ [path_name b]) ?w0
                  = (Inr (), ?w0\<lparr>files := AList.update (dest_dir @ [path_name b]) content (files ?w0)\<rparr>)"
      by blast
    have "ready (?w0\<lparr>files := AList.update (dest_dir @ [path_name b]) content (files ?w0)\<rparr>) dest_dir"
      using r0 by (rule ready_update)
    then show ?thesis
      using c by (simp add: b Let_def track_line_def fmt02d_1)
  next
    case False
    let ?w1 = "print_line (''    Synthesizing CUE for '' @ dec (length bins) @
                 '' BINs (track1 data, rest audio; order = sorted filenames)'') ?w0"
    have "ready ?w1 dest_dir" using r0 by simp
    moreover have "\<forall>b\<in>set bins. is_file ?w1 b \<and> b \<noteq> dest_dir @ [path_name b]
        \<and> \<not> is_dir ?w1 (dest_dir @ [path_name b])"
      using pre by simp
    ultimately obtain w' where
      "cue_loop dest_dir bins (Suc 0) [] ?w1 =
         (Inr ([] @ concat (map (\<lambda>(i, b). [file_line (path_name b), track_line (Suc i), index_line])
                                 (enumerate 0 bins))), w')"
      "ready w' dest_dir" "dirs w' = dirs ?w1"
      using cue_loop_ok[of ?w1 dest_dir bins 0 "[]"] by blast
    then show ?thesis
      using False by (simp add: print_line_def)
  qed
  then obtain w1 where
    l: "(if length bins = 1 then
                  (let bin_base = path_name (bins ! 0) in
                   case copy2 (bins ! 0) (dest_dir @ [bin_base]) ?w0 of
                     (Inl e, w1) \<Rightarrow> (Inl e, w1)
                   | (Inr _, w1) \<Rightarrow>
                       (Inr [file_line bin_base, ''  TRACK 01 MODE2/2352'' @ [CHR 0x0A], index_line],
                        w1))
                else
                  cue_loop dest_dir bins 1 []
                    (print_line (''    Synthesizing CUE for '' @ dec (length bins) @
                       '' BINs (track1 data, rest audio; order = sorted filenames)'') ?w0))
           = (Inr (concat (map (\<lambda>(i, b). [file_line (path_name b), track_line (Suc i), index_line])
                               (enumerate 0 bins))), w1)"
    and r1: "ready w1 dest_dir" and d1: "dirs w1 = dirs ?w0"
    by blast
  have "\<not> is_dir w1 ?cue"
    using nd[OF assms(4)] d1 by (simp add: is_dir_def)
  from write_under[OF r1 this] have
    wr: "write_text ?cue t w1 = (Inr (), w1\<lparr>files := AList.update ?cue t (files w1)\<rparr>)" for t .
  have "synthesize_cue bins dest_dir base_name w
      = (Inr ?cue, w1\<lparr>files := AList.update ?cue ?text (files w1)\<rparr>)"
    unfolding synthesize_cue_def mk Let_def
    by (simp only: l[unfolded Let_def] prod.case sum.case wr old.unit.case loop_lines_render
        cue_tracks_track_of[symmetric] rt)
  then have "fst (synthesize_cue bins dest_dir base_name w) = Inr ?cue"
    "map_of (files (snd (synthesize_cue bins dest_dir base_name w))) ?cue = Some ?text"
    by (simp_all add: update_conv')
  moreover have "map mode (cue_tracks bins) = Data # replicate (length bins - 1) Audio"
    using assms(1) by (cases bins) (simp_all add: cue_tracks_props(3))
  ultimately show ?thesis
    by (simp only: cue_tracks_props(1,2,4) fmt02d_pins rt simp_thms)
qed

text \<open>
  The theorem of C4 at the three files \<open>a.bin\<close>, \<open>b.bin\<close>, \<open>c.bin\<close>, with the text of the
  cue file written out.
\<close>

theorem C4_synthesize_cue_witness:
  "fst (synthesize_cue [[''g'', ''a.bin''], [''g'', ''b.bin''], [''g'', ''c.bin'']] [''tmp'', ''x''] ''Game''
     \<lparr>files = [([''g'', ''a.bin''], ''A''), ([''g'', ''b.bin''], ''B''), ([''g'', ''c.bin''], ''C'')],
      dirs = [[''g''], [''tmp'']], log = []\<rparr>) = Inr [''tmp'', ''x'', ''Game.cue'']
   \<and> map_of (files (snd (synthesize_cue [[''g'', ''a.bin''], [''g'', ''b.bin''], [''g'', ''c.bin'']]
        [''tmp'', ''x''] ''Game''
        \<lparr>files = [([''g'', ''a.bin''], ''A''), ([''g'', ''b.bin''], ''B''), ([''g'', ''c.bin''], ''C'')],
         dirs = [[''g''], [''tmp'']], log = []\<rparr>))) [''tmp'', ''x'', ''Game.cue'']
      = Some (''FILE '' @ [CHR 0x22] @ ''a.bin'' @ [CHR 0x22] @ '' BINARY'' @ [CHR 0x0A] @
              ''  TRACK 01 MODE2/2352'' @ [CHR 0x0A] @
              ''    INDEX 01 00:00:00'' @ [CHR 0x0A] @
              ''FILE '' @ [CHR 0x22] @ ''b.bin'' @ [CHR 0x22] @ '' BINARY'' @ [CHR 0x0A] @
              ''  TRACK 02 AUDIO'' @ [CHR 0x0A] @
              ''    INDEX 01 00:00:00'' @ [CHR 0x0A] @
              ''FILE '' @ [CHR 0x22] @ ''c.bin'' @ [CHR 0x22] @ '' BINARY'' @ [CHR 0x0A] @
              ''  TRACK 03 AUDIO'' @ [CHR 0x0A] @
              ''    INDEX 01 00:00:00'' @ [CHR 0x0A])
   \<and> dec_value (fmt02d 12) = 12"
proof -
  let ?bins = "[[''g'', ''a.bin''], [''g'', ''b.bin''], [''g'', ''c.bin'']]"
  let ?w = "\<lparr>files = [([''g'', ''a.bin''], ''A''), ([''g'', ''b.bin''], ''B''), ([''g'', ''c.bin''], ''C'')],
            dirs = [[''g''], [''tmp'']], log = []\<rparr>"
  have 1: "?bins \<noteq> []" by simp
  have 2: "clear_way ?w [''tmp'', ''x'']"
    by (simp add: clear_way_def file_on_the_way_def is_file_def)
  have 3: "\<forall>b\<in>set ?bins. is_file ?w b \<and> b \<noteq> [''tmp'', ''x''] @ [path_name b]
      \<and> \<not> is_dir ?w ([''tmp'', ''x''] @ [path_name b])"
    by (simp add: is_file_def is_dir_def path_name_def)
  have 4: "\<not> is_dir ?w ([''tmp'', ''x''] @ [''Game'' @ ''.cue''])"
    by (simp add: is_dir_def)
  have f: "fmt02d (Suc 0) = ''01''" "fmt02d (Suc (Suc 0)) = ''02''" "fmt02d (Suc (Suc (Suc 0))) = ''03''"
    by (simp_all add: fmt02d_def dec.simps digits_def)
  note t = C4_synthesize_cue[OF 1 2 3 4, of 12]
  have a: "fst (synthesize_cue ?bins [''tmp'', ''x''] ''Game'' ?w) = Inr [''tmp'', ''x'', ''Game.cue'']"
    using t[THEN conjunct1] by simp
  have b: "map_of (files (snd (synthesize_cue ?bins [''tmp'', ''x''] ''Game'' ?w))) [''tmp'', ''x'', ''Game.cue'']
      = Some (''FILE '' @ [CHR 0x22] @ ''a.bin'' @ [CHR 0x22] @ '' BINARY'' @ [CHR 0x0A] @
              ''  TRACK 01 MODE2/2352'' @ [CHR 0x0A] @
              ''    INDEX 01 00:00:00'' @ [CHR 0x0A] @
              ''FILE '' @ [CHR 0x22] @ ''b.bin'' @ [CHR 0x22] @ '' BINARY'' @ [CHR 0x0A] @
              ''  TRACK 02 AUDIO'' @ [CHR 0x0A] @
              ''    INDEX 01 00:00:00'' @ [CHR 0x0A] @
              ''FILE '' @ [CHR 0x22] @ ''c.bin'' @ [CHR 0x22] @ '' BINARY'' @ [CHR 0x0A] @
              ''  TRACK 03 AUDIO'' @ [CHR 0x0A] @
              ''    INDEX 01 00:00:00'' @ [CHR 0x0A])"
    using t[THEN conjunct2, THEN conjunct1] by (simp add: path_name_def f)
  have c: "dec_value (fmt02d 12) = 12"
    using t[THEN conjunct2, THEN conjunct2, THEN conjunct1] .
  from a b c show ?thesis by blast
qed

end
